theory Spec2Isabelle
  imports Complex_Main "HOL-Library.Word" "HOL-Library.Sublist"
begin

unbundle bit_operations_syntax

section \<open>Remote-call errors and their classification (services/geminiService.ts, retry)\<close>

text \<open>
  The value caught by \<^verbatim>\<open>catch (error: any)\<close> is modelled as an object with the four
  fields the code inspects. A field that is absent (or \<^verbatim>\<open>undefined\<close>) is \<open>None\<close>;
  \<open>code\<close> is \<open>Some c\<close> exactly when \<^verbatim>\<open>'code' in error\<close> holds with a numeric code, and
  \<open>details\<close> is \<open>Some ds\<close> exactly when \<^verbatim>\<open>error.details\<close> is an array. Each entry of
  \<open>details\<close> keeps its \<^verbatim>\<open>'@type'\<close> tag and its \<^verbatim>\<open>retryDelay\<close> string, if it has one.
  Strings are lists of 8-bit characters.
\<close>

record detail =
  at_type :: string
  retryDelay :: "string option"

record api_error =
  code :: "int option"
  status :: "string option"
  message :: "string option"
  details :: "detail list option"

text \<open>\<^verbatim>\<open>String.prototype.includes\<close>: the argument occurs as a contiguous substring.\<close>

fun str_includes :: "string \<Rightarrow> string \<Rightarrow> bool" where
  "str_includes [] sub = (sub = [])"
| "str_includes (c # cs) sub = (prefix sub (c # cs) \<or> str_includes cs sub)"

definition isApiError :: "api_error \<Rightarrow> bool" where
  "isApiError error = (code error \<noteq> None)"

text \<open>
  \<^verbatim>\<open>error.message && error.message.includes(m)\<close>: a missing or empty message is falsy.
\<close>

definition message_includes :: "api_error \<Rightarrow> string \<Rightarrow> bool" where
  "message_includes error m =
     (case message error of
        None \<Rightarrow> False
      | Some msg \<Rightarrow> msg \<noteq> [] \<and> str_includes msg m)"

definition isRetryableError :: "api_error \<Rightarrow> bool" where
  "isRetryableError error =
     ((isApiError error \<and>
         (code error = Some 503 \<or> code error = Some 429 \<or>
          status error = Some ''RESOURCE_EXHAUSTED'')) \<or>
      message_includes error ''The model is overloaded'' \<or>
      message_includes error ''TTS API returned success but no audio data found'')"

subsection \<open>Numbers\<close>

text \<open>
  The delays and the backoff factor of \<^verbatim>\<open>retry\<close> are JavaScript numbers: IEEE 754
  double-precision values. A finite number is the real it denotes (the negative zero is
  not told apart from zero, which no operation of \<^verbatim>\<open>retry\<close> can observe).
\<close>

datatype number = Finite real | PosInfinity | NegInfinity | NaN

text \<open>The number of binary digits of a natural number.\<close>

function bit_length :: "nat \<Rightarrow> nat" where
  "bit_length n = (if n = 0 then 0 else Suc (bit_length (n div 2)))"
  by pat_completeness auto
termination
  by (relation "measure id") auto

declare bit_length.simps [simp del]

text \<open>
  For \<open>a > 0\<close>, the exponent \<open>e\<close> with \<open>2^e \<le> a < 2^(e + 1)\<close>.
\<close>

definition binary_exponent :: "real \<Rightarrow> int" where
  "binary_exponent a =
     (if 1 \<le> a then int (bit_length (nat \<lfloor>a\<rfloor>)) - 1
      else - int (bit_length (nat \<lceil>1 / a\<rceil> - 1)))"

definition round_half_even :: "real \<Rightarrow> int" where
  "round_half_even q =
     (let f = \<lfloor>q\<rfloor>; d = q - of_int f
      in if d < 1 / 2 then f else if 1 / 2 < d then f + 1 else if even f then f else f + 1)"

text \<open>
  The Number value for a real \<open>x\<close>: the double nearest to \<open>x\<close>, the one with an even
  significand when two are equally near. Doubles are the multiples of \<open>2^(e - 52)\<close> with
  a significand below \<open>2^53\<close>, where \<open>e\<close> is at least \<open>-1022\<close>; a result of \<open>2^1024\<close> or
  more is an infinity.
\<close>

definition number_value :: "real \<Rightarrow> number" where
  "number_value x =
     (if x = 0 then Finite 0
      else
        let e = max (binary_exponent \<bar>x\<bar>) (- 1022);
            ulp = 2 powi (e - 52);
            r = of_int (round_half_even (\<bar>x\<bar> / ulp)) * ulp
        in if 2 ^ 1024 \<le> r then (if 0 < x then PosInfinity else NegInfinity)
           else Finite (sgn x * r))"

text \<open>The product of an infinity and a finite number \<open>a\<close>, given as the sign of the result.\<close>

definition signed_infinity :: "real \<Rightarrow> number" where
  "signed_infinity a = (if a = 0 then NaN else if 0 < a then PosInfinity else NegInfinity)"

text \<open>\<^verbatim>\<open>x * y\<close>: the exact product, rounded.\<close>

fun number_times :: "number \<Rightarrow> number \<Rightarrow> number" where
  "number_times NaN y = NaN"
| "number_times x NaN = NaN"
| "number_times (Finite a) (Finite b) = number_value (a * b)"
| "number_times (Finite a) PosInfinity = signed_infinity a"
| "number_times (Finite a) NegInfinity = signed_infinity (- a)"
| "number_times PosInfinity (Finite b) = signed_infinity b"
| "number_times NegInfinity (Finite b) = signed_infinity (- b)"
| "number_times PosInfinity PosInfinity = PosInfinity"
| "number_times PosInfinity NegInfinity = NegInfinity"
| "number_times NegInfinity PosInfinity = NegInfinity"
| "number_times NegInfinity NegInfinity = PosInfinity"

text \<open>\<^verbatim>\<open>x > 0\<close>\<close>

fun greater_than_zero :: "number \<Rightarrow> bool" where
  "greater_than_zero (Finite a) = (0 < a)"
| "greater_than_zero PosInfinity = True"
| "greater_than_zero NegInfinity = False"
| "greater_than_zero NaN = False"

subsection \<open>The server-suggested delay\<close>

definition isDigit :: "char \<Rightarrow> bool" where
  "isDigit c = (c \<in> set ''0123456789'')"

text \<open>
  \<^verbatim>\<open>retryDelay.match(/(\d+)s/)\<close>: the leftmost match of one or more decimal digits followed
  by the letter s. Since \<^verbatim>\<open>\d+\<close> is greedy and a shorter run of digits is followed by a
  digit, the first group is the first maximal run of digits that is directly followed by
  an s. \<open>run\<close> is the run of digits read so far.
\<close>

fun match_digits_s :: "string \<Rightarrow> string \<Rightarrow> string option" where
  "match_digits_s run [] = None"
| "match_digits_s run (c # cs) =
     (if isDigit c then match_digits_s (run @ [c]) cs
      else if c = CHR ''s'' \<and> run \<noteq> [] then Some run
      else match_digits_s [] cs)"

text \<open>
  \<^verbatim>\<open>parseInt(m, 10)\<close> on a non-empty string of decimal digits: the Number value for the
  integer that the digits denote (the digits are not approximated).
\<close>

definition digit_value :: "char \<Rightarrow> nat" where
  "digit_value c = of_char c - 48"

definition decimal_value :: "string \<Rightarrow> nat" where
  "decimal_value ds = foldl (\<lambda>n c. 10 * n + digit_value c) 0 ds"

definition parseInt10 :: "string \<Rightarrow> number" where
  "parseInt10 ds = number_value (real (decimal_value ds))"

text \<open>
  Lines 134 to 144: the delay in milliseconds taken from the first
  \<^verbatim>\<open>google.rpc.RetryInfo\<close> entry of \<^verbatim>\<open>error.details\<close>, and 0 when there is none.
\<close>

definition isRetryInfo :: "detail \<Rightarrow> bool" where
  "isRetryInfo d = (at_type d = ''type.googleapis.com/google.rpc.RetryInfo'')"

definition customRetryDelay :: "api_error \<Rightarrow> number" where
  "customRetryDelay error =
     (case details error of
        None \<Rightarrow> Finite 0
      | Some ds \<Rightarrow>
          (case find isRetryInfo ds of
             None \<Rightarrow> Finite 0
           | Some retryInfo \<Rightarrow>
               (case retryDelay retryInfo of
                  None \<Rightarrow> Finite 0
                | Some rd \<Rightarrow>
                    if rd = [] then Finite 0
                    else (case match_digits_s [] rd of
                            None \<Rightarrow> Finite 0
                          | Some m1 \<Rightarrow> number_times (parseInt10 m1) (Finite 1000)))))"

subsection \<open>The retry loop\<close>

text \<open>
  The operation \<^verbatim>\<open>fn\<close> is effectful: \<open>fn k\<close> is what its \<open>k\<close>-th invocation (counted
  from 0) does, \<open>Inl\<close> the value it throws and \<open>Inr\<close> the value it resolves with. The run
  of \<^verbatim>\<open>retry\<close> is recorded with its outcome, the number of times \<^verbatim>\<open>fn\<close> was invoked and
  the delays handed to \<^verbatim>\<open>setTimeout\<close>, in order. \<open>maxRetries\<close> and \<open>retries\<close> are
  integers. Logging is left out.
\<close>

record 'a retry_run =
  outcome :: "api_error + 'a"
  invocations :: nat
  timeouts :: "number list"

function retry_loop ::
  "(nat \<Rightarrow> api_error + 'a) \<Rightarrow> int \<Rightarrow> number \<Rightarrow> int \<Rightarrow> number \<Rightarrow> nat \<Rightarrow> number list
     \<Rightarrow> 'a retry_run"
where
  "retry_loop fn maxRetries factor retries delay calls slept =
     (case fn calls of
        Inr v \<Rightarrow> \<lparr>outcome = Inr v, invocations = Suc calls, timeouts = slept\<rparr>
      | Inl error \<Rightarrow>
          if \<not> isRetryableError error \<or> retries \<ge> maxRetries
          then \<lparr>outcome = Inl error, invocations = Suc calls, timeouts = slept\<rparr>
          else
            let retries' = retries + 1;
                delay' = (if greater_than_zero (customRetryDelay error)
                          then customRetryDelay error
                          else number_times delay factor)
            in retry_loop fn maxRetries factor retries' delay' (Suc calls) (slept @ [delay']))"
  by pat_completeness auto
termination
  by (relation "measure (\<lambda>(fn, maxRetries, factor, retries, delay, calls, slept).
        nat (maxRetries - retries))") auto

declare retry_loop.simps [simp del]

definition retry ::
  "(nat \<Rightarrow> api_error + 'a) \<Rightarrow> int \<Rightarrow> number \<Rightarrow> number \<Rightarrow> 'a retry_run" where
  "retry fn maxRetries initialDelayMs factor =
     retry_loop fn maxRetries factor 0 initialDelayMs 0 []"

text \<open>
  Invocation \<open>k\<close> of \<open>fn\<close> is a terminal failure with error \<open>e\<close>: every earlier
  invocation failed with a retryable error, and \<open>e\<close> is fatal or the retry count \<open>k\<close> has
  reached \<open>maxRetries\<close>.
\<close>

definition terminal_failure :: "(nat \<Rightarrow> api_error + 'a) \<Rightarrow> int \<Rightarrow> nat \<Rightarrow> api_error \<Rightarrow> bool" where
  "terminal_failure fn maxRetries k e =
     ((\<forall>j<k. case fn j of Inl e' \<Rightarrow> isRetryableError e' | Inr v \<Rightarrow> False) \<and>
      fn k = Inl e \<and> int k \<le> maxRetries \<and>
      (\<not> isRetryableError e \<or> int k = maxRetries))"

text \<open>constants.ts\<close>

definition API_MAX_RETRIES :: int where "API_MAX_RETRIES = 10"
definition API_RETRY_INITIAL_DELAY_MS :: number where "API_RETRY_INITIAL_DELAY_MS = Finite 1000"
definition API_RETRY_BACKOFF_FACTOR :: number where "API_RETRY_BACKOFF_FACTOR = Finite 2"

section \<open>The public remote operations (detectLanguage, translateText, generateSpeech)\<close>

text \<open>
  \<^verbatim>\<open>ModelName\<close> is declared in types.ts; only its members' names are used. A request
  holds the model, the prompt and the part of the configuration that varies; the remote
  call \<^verbatim>\<open>ai.models.generateContent\<close> is a parameter \<open>generateContent\<close>, where
  \<open>generateContent req k\<close> is what the \<open>k\<close>-th invocation with request \<open>req\<close> does. Of a
  response the code reads \<^verbatim>\<open>response.text\<close> and the inline data of the first part of the
  first candidate (\<open>None\<close> when the optional chain yields \<^verbatim>\<open>undefined\<close>).
\<close>

datatype ModelName = GEMINI_FLASH_LATEST | GEMINI_PRO_2_5 | GEMINI_FLASH_TTS | GEMINI_FLASH_LIVE_AUDIO

datatype config =
    JsonLanguageSchema
  | ThinkingBudget nat
  | NoConfig
  | SpeechVoice string

record request =
  model :: ModelName
  contents :: string
  req_config :: config

record response =
  response_text :: string
  inlineData_data :: "string option"

definition THINKING_BUDGET_PRO :: nat where "THINKING_BUDGET_PRO = 32768"

definition SUPPORTED_TRANSLATION_LANGUAGES :: "(string \<times> string) list" where
  "SUPPORTED_TRANSLATION_LANGUAGES =
     [(''English'', ''en''), (''Spanish'', ''es''), (''French'', ''fr''), (''German'', ''de''),
      (''Italian'', ''it''), (''Japanese'', ''ja''), (''Korean'', ''ko''),
      (''Mandarin Chinese'', ''zh-CN''), (''Portuguese'', ''pt''), (''Russian'', ''ru''),
      (''Arabic'', ''ar''), (''Hindi'', ''hi''), (''Bengali'', ''bn''), (''Dutch'', ''nl''),
      (''Swedish'', ''sv''), (''Thai'', ''th''), (''Vietnamese'', ''vi''), (''Turkish'', ''tr''),
      (''Polish'', ''pl''), (''Indonesian'', ''id''), (''Sinhala'', ''si'')]"

definition getLanguageNameFromCode :: "string \<Rightarrow> string" where
  "getLanguageNameFromCode c =
     (case find (\<lambda>l. snd l = c) SUPPORTED_TRANSLATION_LANGUAGES of
        Some lang \<Rightarrow> fst lang
      | None \<Rightarrow> c)"

subsection \<open>String helpers of the JavaScript library\<close>

text \<open>
  White space and line terminators among the 8-bit characters (code units above 255 are
  outside this model of strings).
\<close>

definition isWhiteSpace :: "char \<Rightarrow> bool" where
  "isWhiteSpace c = (of_char c \<in> {9, 10, 11, 12, 13, 32, 160 :: nat})"

definition trim :: "string \<Rightarrow> string" where
  "trim s = rev (dropWhile isWhiteSpace (rev (dropWhile isWhiteSpace s)))"

text \<open>\<^verbatim>\<open>s.lastIndexOf(pat)\<close>: the greatest index at which \<open>pat\<close> occurs, or -1.\<close>

definition lastIndexOf :: "string \<Rightarrow> string \<Rightarrow> int" where
  "lastIndexOf s pat =
     (case filter (\<lambda>i. prefix pat (drop i s)) (rev [0 ..< Suc (length s)]) of
        [] \<Rightarrow> -1
      | i # _ \<Rightarrow> int i)"

text \<open>
  \<^verbatim>\<open>s.substring(start, end)\<close>: both indices are clamped to the string and swapped when
  \<open>start\<close> exceeds \<open>end\<close>.
\<close>

definition substring :: "string \<Rightarrow> int \<Rightarrow> int \<Rightarrow> string" where
  "substring s start end' =
     (let a = nat (max 0 (min start (int (length s))));
          b = nat (max 0 (min end' (int (length s))));
          from = min a b;
          to = max a b
      in take (to - from) (drop from s))"

subsection \<open>detectLanguage\<close>

text \<open>
  \<^verbatim>\<open>JSON.parse\<close> is a parameter: it either throws or yields a JSON value. Objects are
  association lists with distinct keys.
\<close>

datatype json =
    JNull
  | JBool bool
  | JNumber real
  | JString string
  | JArray "json list"
  | JObject "(string \<times> json) list"

text \<open>An \<^verbatim>\<open>Error\<close> object as the language throws it: a message and nothing else.\<close>

definition js_Error :: "string \<Rightarrow> api_error" where
  "js_Error msg = \<lparr>code = None, status = None, message = Some msg, details = None\<rparr>"

text \<open>
  \<^verbatim>\<open>v.key\<close> for the keys \<^verbatim>\<open>language\<close> and \<^verbatim>\<open>code\<close>: it throws on \<^verbatim>\<open>null\<close>, reads the
  member of an object, and is \<^verbatim>\<open>undefined\<close> (\<open>None\<close>) on every other value. An
  \<^verbatim>\<open>undefined\<close> member is falsy and is not \<^verbatim>\<open>=== null\<close>.
\<close>

fun get_member :: "json \<Rightarrow> string \<Rightarrow> api_error + json option" where
  "get_member JNull key = Inl (js_Error ''Cannot read properties of null'')"
| "get_member (JObject kvs) key = Inr (map_of kvs key)"
| "get_member v key = Inr None"

fun truthy :: "json option \<Rightarrow> bool" where
  "truthy None = False"
| "truthy (Some JNull) = False"
| "truthy (Some (JBool b)) = b"
| "truthy (Some (JNumber x)) = (x \<noteq> 0)"
| "truthy (Some (JString s)) = (s \<noteq> [])"
| "truthy (Some (JArray vs)) = True"
| "truthy (Some (JObject kvs)) = True"

record detected_language =
  lang_name :: json
  lang_code :: json

definition detect_prompt :: "string \<Rightarrow> string" where
  \<open>detect_prompt text' =
     ''Detect the language of the following text. Respond only with the language name and its ISO 639-1 code in JSON format like `{"language": "English", "code": "en"}`. If you cannot confidently detect the language, respond with `{"language": "Unknown", "code": null}`.'' @
     ''\<newline>        \<newline>\<newline>Text: "'' @ text' @ ''"''\<close>

text \<open>Lines 309 to 322: what the code makes of a response, inside the \<^verbatim>\<open>try\<close> block.\<close>

definition read_detected ::
  "(string \<Rightarrow> api_error + json) \<Rightarrow> response \<Rightarrow> api_error + detected_language option" where
  "read_detected JSON_parse resp =
     (let jsonStr0 = trim (response_text resp);
          jsonStr =
            (if prefix ''```json'' jsonStr0
             then trim (substring jsonStr0 7 (lastIndexOf jsonStr0 ''```''))
             else if prefix ''```'' jsonStr0
             then trim (substring jsonStr0 3 (lastIndexOf jsonStr0 ''```''))
             else jsonStr0)
      in case JSON_parse jsonStr of
           Inl e \<Rightarrow> Inl e
         | Inr detected \<Rightarrow>
             (case get_member detected ''language'' of
                Inl e \<Rightarrow> Inl e
              | Inr language \<Rightarrow>
                  (case get_member detected ''code'' of
                     Inl e \<Rightarrow> Inl e
                   | Inr code' \<Rightarrow>
                       (case (language, code') of
                          (Some l, Some c) \<Rightarrow>
                            if truthy (Some l) \<and> (truthy (Some c) \<or> c = JNull)
                            then Inr (Some \<lparr>lang_name = l, lang_code = c\<rparr>)
                            else Inr None
                        | _ \<Rightarrow> Inr None))))"

definition detect_request :: "string \<Rightarrow> request" where
  "detect_request text' =
     \<lparr>model = GEMINI_FLASH_LATEST, contents = detect_prompt text',
      req_config = JsonLanguageSchema\<rparr>"

text \<open>
  \<^verbatim>\<open>detectLanguage\<close> resolves with an object or with \<^verbatim>\<open>null\<close> (\<open>None\<close>); its
  \<^verbatim>\<open>catch\<close> block logs whatever was thrown and returns \<^verbatim>\<open>null\<close>.
\<close>

definition detectLanguage ::
  "(request \<Rightarrow> nat \<Rightarrow> api_error + response) \<Rightarrow> (string \<Rightarrow> api_error + json) \<Rightarrow> string \<Rightarrow>
   detected_language option" where
  "detectLanguage generateContent JSON_parse text' =
     (case outcome (retry (generateContent (detect_request text'))
              API_MAX_RETRIES API_RETRY_INITIAL_DELAY_MS API_RETRY_BACKOFF_FACTOR) of
        Inl error \<Rightarrow> None
      | Inr resp \<Rightarrow>
          (case read_detected JSON_parse resp of
             Inl error \<Rightarrow> None
           | Inr result \<Rightarrow> result))"

subsection \<open>translateText\<close>

definition translate_prompt :: "string \<Rightarrow> string \<Rightarrow> string \<Rightarrow> string" where
  \<open>translate_prompt sourceLanguageDisplayName targetLanguageName text' =
     ''Translate the following '' @ sourceLanguageDisplayName @ '' text into '' @
     targetLanguageName @ ''. If the text is already in '' @ targetLanguageName @
     '', just confirm it without translating:\<newline>\<newline>"'' @ text' @ ''"''\<close>

text \<open>The request of \<^verbatim>\<open>translateText\<close>: model, configuration and prompt.\<close>

definition translate_request :: "string \<Rightarrow> string \<Rightarrow> bool \<Rightarrow> string option \<Rightarrow> request" where
  "translate_request text' targetLanguageName useThinkingMode sourceLanguageCode =
     (let model' = (if useThinkingMode then GEMINI_PRO_2_5 else GEMINI_FLASH_LATEST);
          config' = (if useThinkingMode then ThinkingBudget THINKING_BUDGET_PRO else NoConfig);
          sourceLanguageDisplayName =
            (case sourceLanguageCode of
               None \<Rightarrow> ''input''
             | Some c \<Rightarrow> if c \<noteq> [] \<and> c \<noteq> ''null'' then getLanguageNameFromCode c else ''input'');
          prompt = translate_prompt sourceLanguageDisplayName targetLanguageName text'
      in \<lparr>model = model', contents = prompt, req_config = config'\<rparr>)"

definition translateText ::
  "(request \<Rightarrow> nat \<Rightarrow> api_error + response) \<Rightarrow> string \<Rightarrow> string \<Rightarrow> bool \<Rightarrow> string option \<Rightarrow>
   api_error + string" where
  "translateText generateContent text' targetLanguageName useThinkingMode sourceLanguageCode =
     (case outcome (retry
              (generateContent
                 (translate_request text' targetLanguageName useThinkingMode sourceLanguageCode))
              API_MAX_RETRIES API_RETRY_INITIAL_DELAY_MS API_RETRY_BACKOFF_FACTOR) of
        Inl error \<Rightarrow> Inl error
      | Inr resp \<Rightarrow> Inr (response_text resp))"

subsection \<open>generateSpeech\<close>

definition no_audio_error :: api_error where
  "no_audio_error = js_Error ''TTS API returned success but no audio data found in response.''"

text \<open>The operation handed to \<^verbatim>\<open>retry\<close>: it throws when the response has no audio.\<close>

definition speech_request :: "string \<Rightarrow> request" where
  "speech_request text' =
     \<lparr>model = GEMINI_FLASH_TTS, contents = text', req_config = SpeechVoice ''Kore''\<rparr>"

definition speech_attempt ::
  "(request \<Rightarrow> nat \<Rightarrow> api_error + response) \<Rightarrow> string \<Rightarrow> nat \<Rightarrow> api_error + string" where
  "speech_attempt generateContent text' k =
     (case generateContent (speech_request text') k of
        Inl error \<Rightarrow> Inl error
      | Inr resp \<Rightarrow>
          (case inlineData_data resp of
             None \<Rightarrow> Inl no_audio_error
           | Some audioData \<Rightarrow> if audioData = [] then Inl no_audio_error else Inr audioData))"

definition generateSpeech ::
  "(request \<Rightarrow> nat \<Rightarrow> api_error + response) \<Rightarrow> string \<Rightarrow> api_error + string" where
  "generateSpeech generateContent text' =
     (if trim text' = [] then Inr []
      else
        (case outcome (retry (speech_attempt generateContent text')
                API_MAX_RETRIES API_RETRY_INITIAL_DELAY_MS API_RETRY_BACKOFF_FACTOR) of
           Inl error \<Rightarrow> Inl error
         | Inr base64Audio \<Rightarrow> Inr base64Audio))"

section \<open>Audio: transport encoding and the sample codec\<close>

text \<open>
  Bytes are 8-bit words, the elements of an \<^verbatim>\<open>Int16Array\<close> are 16-bit words read as
  signed. Audio samples are JavaScript numbers held in \<^verbatim>\<open>Float32Array\<close>s; they are
  modelled as reals, which is exact for the operations of this file (multiplication and
  division by powers of two and by \<open>0x7FFF\<close>, truncation, comparison); \<^verbatim>\<open>NaN\<close> and the
  infinities are not modelled. What the platform throws is a value of \<open>audio_error\<close>.
\<close>

type_synonym byte = "8 word"

datatype audio_error =
    InvalidCharacterError
  | RangeError
  | NotSupportedError
  | IndexSizeError

subsection \<open>The platform's base64 functions\<close>

text \<open>
  \<^verbatim>\<open>atob\<close> and \<^verbatim>\<open>btoa\<close> are functions of the browser, modelled after the forgiving-base64
  decode and the base64 encode of the WHATWG Infra standard. A binary string is a string
  of 8-bit characters.
\<close>

definition base64_alphabet :: string where
  "base64_alphabet = ''ABCDEFGHIJKLMNOPQRSTUVWXYZabcdefghijklmnopqrstuvwxyz0123456789+/''"

fun index_of :: "'a \<Rightarrow> 'a list \<Rightarrow> nat option" where
  "index_of x [] = None"
| "index_of x (y # ys) = (if x = y then Some 0 else map_option Suc (index_of x ys))"

definition isAsciiWhitespace :: "char \<Rightarrow> bool" where
  "isAsciiWhitespace c = (of_char c \<in> {9, 10, 12, 13, 32 :: nat})"

text \<open>Remove one or two trailing \<open>=\<close> signs.\<close>

definition strip_padding :: "string \<Rightarrow> string" where
  "strip_padding s =
     (case rev s of
        a # b # r \<Rightarrow>
          if a = CHR ''='' \<and> b = CHR ''='' then rev r
          else if a = CHR ''='' then rev (b # r)
          else s
      | _ \<Rightarrow> s)"

text \<open>
  Sextets to bytes: four sextets give three bytes; of a final group of three sextets the
  last two bits are discarded, of a final group of two the last four.
\<close>

fun sextets_to_bytes :: "nat list \<Rightarrow> nat list" where
  "sextets_to_bytes (a # b # c # d # rest) =
     (let n = ((a * 64 + b) * 64 + c) * 64 + d
      in [n div 65536, (n div 256) mod 256, n mod 256] @ sextets_to_bytes rest)"
| "sextets_to_bytes [a, b, c] =
     (let n = ((a * 64 + b) * 64 + c) div 4 in [n div 256, n mod 256])"
| "sextets_to_bytes [a, b] = [(a * 64 + b) div 16]"
| "sextets_to_bytes _ = []"

definition sextet_of :: "char \<Rightarrow> nat" where
  "sextet_of c = (case index_of c base64_alphabet of Some i \<Rightarrow> i | None \<Rightarrow> 0)"

definition atob :: "string \<Rightarrow> audio_error + string" where
  "atob s =
     (let data0 = filter (\<lambda>c. \<not> isAsciiWhitespace c) s;
          data = (if length data0 mod 4 = 0 then strip_padding data0 else data0)
      in if length data mod 4 = 1 then Inl InvalidCharacterError
         else if list_ex (\<lambda>c. index_of c base64_alphabet = None) data
         then Inl InvalidCharacterError
         else Inr (map char_of (sextets_to_bytes (map sextet_of data))))"

definition sextet_char :: "nat \<Rightarrow> char" where
  "sextet_char i = base64_alphabet ! (i mod 64)"

fun bytes_to_base64 :: "nat list \<Rightarrow> string" where
  "bytes_to_base64 (a # b # c # rest) =
     (let n = (a * 256 + b) * 256 + c
      in [sextet_char (n div 262144), sextet_char (n div 4096), sextet_char (n div 64),
          sextet_char n] @ bytes_to_base64 rest)"
| "bytes_to_base64 [a, b] =
     (let n = (a * 256 + b) * 4
      in [sextet_char (n div 4096), sextet_char (n div 64), sextet_char n, CHR ''=''])"
| "bytes_to_base64 [a] =
     (let n = a * 16 in [sextet_char (n div 64), sextet_char n, CHR ''='', CHR ''=''])"
| "bytes_to_base64 [] = []"

definition btoa :: "string \<Rightarrow> string" where
  "btoa binary = bytes_to_base64 (map of_char binary)"

subsection \<open>decode and encode\<close>

definition decode :: "string \<Rightarrow> audio_error + byte list" where
  "decode base64 =
     (case atob base64 of
        Inl e \<Rightarrow> Inl e
      | Inr binaryString \<Rightarrow> Inr (map (\<lambda>c. word_of_nat (of_char c)) binaryString))"

definition encode :: "byte list \<Rightarrow> string" where
  "encode bytes = btoa (map (\<lambda>b. char_of (unat b)) bytes)"

subsection \<open>Typed-array views\<close>

text \<open>
  \<^verbatim>\<open>new Int16Array(buffer)\<close> throws a \<^verbatim>\<open>RangeError\<close> when the byte length is odd;
  otherwise element \<open>i\<close> is made of bytes \<open>2 i\<close> (low) and \<open>2 i + 1\<close> (high), the byte order
  of the platforms that run this code. \<^verbatim>\<open>new Uint8Array(int16.buffer)\<close> is the converse
  view. A \<^verbatim>\<open>Uint8Array\<close> is modelled by the bytes of its buffer: the arrays that reach
  \<^verbatim>\<open>decodeAudioData\<close> are made by \<^verbatim>\<open>decode\<close> and span their whole buffer, which is what
  \<^verbatim>\<open>new Int16Array(data.buffer)\<close> reads.
\<close>

fun int16_elements :: "byte list \<Rightarrow> 16 word list" where
  "int16_elements (lo # hi # rest) = word_of_nat (unat lo + 256 * unat hi) # int16_elements rest"
| "int16_elements _ = []"

definition new_Int16Array :: "byte list \<Rightarrow> audio_error + 16 word list" where
  "new_Int16Array buffer =
     (if odd (length buffer) then Inl RangeError else Inr (int16_elements buffer))"

definition int16_bytes :: "16 word \<Rightarrow> byte list" where
  "int16_bytes w = [ucast w, ucast (drop_bit 8 w)]"

definition uint8_view :: "16 word list \<Rightarrow> byte list" where
  "uint8_view ws = concat (map int16_bytes ws)"

text \<open>
  Reading an element: \<open>None\<close> is \<^verbatim>\<open>undefined\<close>, the result of an index out of range.
  Storing into a typed array at an index out of range does nothing.
\<close>

definition element_at :: "'a list \<Rightarrow> nat \<Rightarrow> 'a option" where
  "element_at xs i = (if i < length xs then Some (xs ! i) else None)"

definition store_at :: "'a list \<Rightarrow> nat \<Rightarrow> 'a \<Rightarrow> 'a list" where
  "store_at xs i v = (if i < length xs then xs[i := v] else xs)"

text \<open>
  Conversion of a number to a 16-bit integer, as storing into an \<^verbatim>\<open>Int16Array\<close> and
  \<^verbatim>\<open>DataView.setInt16\<close> do it: truncate towards zero, then wrap modulo \<open>2^16\<close>.
\<close>

definition js_trunc :: "real \<Rightarrow> int" where
  "js_trunc x = (if x < 0 then \<lceil>x\<rceil> else \<lfloor>x\<rfloor>)"

definition ToInt16 :: "real \<Rightarrow> 16 word" where
  "ToInt16 x = word_of_int (js_trunc x)"

subsection \<open>AudioBuffer and decodeAudioData\<close>

record AudioBuffer =
  sampleRate :: nat
  channelData :: "real list list"

definition numberOfChannels :: "AudioBuffer \<Rightarrow> nat" where
  "numberOfChannels b = length (channelData b)"

definition buffer_length :: "AudioBuffer \<Rightarrow> nat" where
  "buffer_length b = (case channelData b of [] \<Rightarrow> 0 | c # _ \<Rightarrow> length c)"

definition duration :: "AudioBuffer \<Rightarrow> real" where
  "duration b = real (buffer_length b) / real (sampleRate b)"

definition getChannelData :: "AudioBuffer \<Rightarrow> nat \<Rightarrow> audio_error + real list" where
  "getChannelData b channel =
     (if channel < length (channelData b) then Inr (channelData b ! channel)
      else Inl IndexSizeError)"

text \<open>
  Of the \<^verbatim>\<open>AudioContext\<close> the decoder uses \<^verbatim>\<open>createBuffer\<close>, whose behaviour depends on
  the implementation: the greatest number of channels and the range of sample rates that
  it supports (the nominal ranges of the Web Audio standard). A context is modelled by
  these limits. The standard requires every implementation to support at least 32
  channels and the sample rates from 8000 to 96000 Hz.
\<close>

record AudioContext =
  maxChannels :: nat
  minSampleRate :: nat
  maxSampleRate :: nat

definition conforming :: "AudioContext \<Rightarrow> bool" where
  "conforming ctx =
     (32 \<le> maxChannels ctx \<and> minSampleRate ctx \<le> 8000 \<and> 96000 \<le> maxSampleRate ctx)"

text \<open>
  \<^verbatim>\<open>ctx.createBuffer(numberOfChannels, length, sampleRate)\<close>: the length is converted to
  an unsigned 32-bit integer (truncated, modulo \<open>2^32\<close>); an argument that is zero or
  outside its nominal range is rejected with \<^verbatim>\<open>NotSupportedError\<close>; the channels are
  filled with zeros. Channel counts and sample rates are whole numbers. (That the memory
  for the buffer can be had is taken for granted.)
\<close>

definition createBuffer :: "AudioContext \<Rightarrow> nat \<Rightarrow> real \<Rightarrow> nat \<Rightarrow> audio_error + AudioBuffer" where
  "createBuffer ctx numChannels length' sampleRate' =
     (let frames = nat \<lfloor>length'\<rfloor> mod 2 ^ 32
      in if numChannels = 0 \<or> frames = 0 \<or> sampleRate' = 0 \<or>
            maxChannels ctx < numChannels \<or>
            sampleRate' < minSampleRate ctx \<or> maxSampleRate ctx < sampleRate'
         then Inl NotSupportedError
         else Inr \<lparr>sampleRate = sampleRate',
                   channelData = replicate numChannels (replicate frames 0)\<rparr>)"

text \<open>
  The inner loop of \<^verbatim>\<open>decodeAudioData\<close>, from frame \<open>i\<close> on. \<open>frameCount\<close> need not be
  an integer. Where the read of \<^verbatim>\<open>dataInt16\<close> is out of range the value stored would be
  \<^verbatim>\<open>NaN\<close>; inside \<^verbatim>\<open>decodeAudioData\<close> this happens only at an index beyond the channel
  (lemma \<open>decode_frames_reads_in_range\<close>), where the store does nothing.
\<close>

function decode_frames ::
  "16 word list \<Rightarrow> nat \<Rightarrow> real \<Rightarrow> nat \<Rightarrow> nat \<Rightarrow> real list \<Rightarrow> real list" where
  "decode_frames dataInt16 numChannels frameCount channel i channelData' =
     (if real i < frameCount
      then decode_frames dataInt16 numChannels frameCount channel (Suc i)
             (case element_at dataInt16 (i * numChannels + channel) of
                Some w \<Rightarrow> store_at channelData' i (real_of_int (sint w) / 32768)
              | None \<Rightarrow> channelData')
      else channelData')"
  by pat_completeness auto
termination
  by (relation "measure (\<lambda>(dataInt16, numChannels, frameCount, channel, i, channelData').
        nat \<lceil>frameCount\<rceil> - i)") (auto, linarith)

declare decode_frames.simps [simp del]

text \<open>
  The outer loop, from channel \<open>channel\<close> on. The array returned by
  \<^verbatim>\<open>getChannelData\<close> is the channel of the buffer itself, so the stores of the inner loop
  change the buffer.
\<close>

function decode_channels ::
  "16 word list \<Rightarrow> nat \<Rightarrow> real \<Rightarrow> nat \<Rightarrow> AudioBuffer \<Rightarrow> audio_error + AudioBuffer" where
  "decode_channels dataInt16 numChannels frameCount channel buffer =
     (if channel < numChannels
      then (case getChannelData buffer channel of
              Inl e \<Rightarrow> Inl e
            | Inr channelData' \<Rightarrow>
                decode_channels dataInt16 numChannels frameCount (Suc channel)
                  (buffer\<lparr>channelData := (channelData buffer)
                     [channel := decode_frames dataInt16 numChannels frameCount channel 0
                                   channelData']\<rparr>))
      else Inr buffer)"
  by pat_completeness auto
termination
  by (relation "measure (\<lambda>(dataInt16, numChannels, frameCount, channel, buffer).
        numChannels - channel)") auto

declare decode_channels.simps [simp del]

definition decodeAudioData ::
  "byte list \<Rightarrow> AudioContext \<Rightarrow> nat \<Rightarrow> nat \<Rightarrow> audio_error + AudioBuffer" where
  "decodeAudioData data ctx sampleRate' numChannels =
     (case new_Int16Array data of
        Inl e \<Rightarrow> Inl e
      | Inr dataInt16 \<Rightarrow>
          (let frameCount = real (length dataInt16) / real numChannels
           in case createBuffer ctx numChannels frameCount sampleRate' of
                Inl e \<Rightarrow> Inl e
              | Inr buffer \<Rightarrow> decode_channels dataInt16 numChannels frameCount 0 buffer))"

subsection \<open>createPcmBlob\<close>

definition LIVE_AUDIO_SAMPLE_RATE :: nat where "LIVE_AUDIO_SAMPLE_RATE = 16000"
definition TTS_AUDIO_SAMPLE_RATE :: nat where "TTS_AUDIO_SAMPLE_RATE = 24000"

record GenAI_Blob =
  blob_data :: string
  mimeType :: string

text \<open>The \<^verbatim>\<open>Int16Array\<close> that the loop of \<^verbatim>\<open>createPcmBlob\<close> fills.\<close>

definition pcm_int16 :: "real list \<Rightarrow> 16 word list" where
  "pcm_int16 data = map (\<lambda>x. ToInt16 (x * 32768)) data"

definition createPcmBlob :: "real list \<Rightarrow> GenAI_Blob" where
  "createPcmBlob data =
     \<lparr>blob_data = encode (uint8_view (pcm_int16 data)),
      mimeType = ''audio/pcm;rate=16000''\<rparr>"

section \<open>Playback scheduling (playAudio)\<close>

text \<open>
  The state that \<^verbatim>\<open>playAudio\<close> works on: the cursor \<^verbatim>\<open>nextStartTimeRef.current\<close>, the
  set \<^verbatim>\<open>audioSources\<close> (its members in insertion order; every node is a new object,
  told apart by \<open>node_id\<close>), and the schedule of the output device: every node on which
  \<^verbatim>\<open>start\<close> was called, in call order, with the time it was given. Times are seconds on
  the clock of the audio context, as reals; \<open>currentTime\<close> is what
  \<^verbatim>\<open>audioContext.currentTime\<close> reads at the call.
\<close>

record AudioBufferSourceNode =
  node_id :: nat
  node_buffer :: AudioBuffer
  start_time :: real

record playback =
  nextStartTime :: real
  audioSources :: "AudioBufferSourceNode list"
  device_schedule :: "AudioBufferSourceNode list"

definition playAudio ::
  "string \<Rightarrow> AudioContext \<Rightarrow> real \<Rightarrow> playback \<Rightarrow> (audio_error + unit) \<times> playback" where
  "playAudio base64Audio audioContext currentTime st =
     (if base64Audio = [] then (Inr (), st)
      else
        let st1 = st\<lparr>nextStartTime := max (nextStartTime st) currentTime\<rparr>
        in case decode base64Audio of
             Inl error \<Rightarrow> (Inl error, st1)
           | Inr data \<Rightarrow>
               (case decodeAudioData data audioContext TTS_AUDIO_SAMPLE_RATE 1 of
                  Inl error \<Rightarrow> (Inl error, st1)
                | Inr audioBuffer \<Rightarrow>
                    let source = \<lparr>node_id = length (device_schedule st1),
                                  node_buffer = audioBuffer,
                                  start_time = nextStartTime st1\<rparr>
                    in (Inr (),
                        st1\<lparr>device_schedule := device_schedule st1 @ [source],
                            nextStartTime := nextStartTime st1 + duration audioBuffer,
                            audioSources := audioSources st1 @ [source]\<rparr>)))"

text \<open>The listener that \<^verbatim>\<open>playAudio\<close> registers for the \<^verbatim>\<open>ended\<close> event of a node.\<close>

definition on_ended :: "nat \<Rightarrow> playback \<Rightarrow> playback" where
  "on_ended n st = st\<lparr>audioSources := filter (\<lambda>s. node_id s \<noteq> n) (audioSources st)\<rparr>"

text \<open>
  What happens to the scheduler over time: calls of \<^verbatim>\<open>playAudio\<close>, each with its audio
  string and the reading of the device clock at the call, and \<^verbatim>\<open>ended\<close> events. The
  caller catches what a call throws, so a run carries on after a failed call.
\<close>

datatype event = Play string real | Ended nat

fun step :: "AudioContext \<Rightarrow> event \<Rightarrow> playback \<Rightarrow> playback" where
  "step audioContext (Play base64Audio currentTime) st =
     snd (playAudio base64Audio audioContext currentTime st)"
| "step audioContext (Ended n) st = on_ended n st"

fun run_events :: "AudioContext \<Rightarrow> event list \<Rightarrow> playback \<Rightarrow> playback" where
  "run_events audioContext [] st = st"
| "run_events audioContext (ev # evs) st = run_events audioContext evs (step audioContext ev st)"

text \<open>At every call of the run the device clock has not advanced past the cursor.\<close>

fun clock_never_ahead :: "AudioContext \<Rightarrow> event list \<Rightarrow> playback \<Rightarrow> bool" where
  "clock_never_ahead audioContext [] st = True"
| "clock_never_ahead audioContext (Play base64Audio currentTime # evs) st =
     (currentTime \<le> nextStartTime st \<and>
      clock_never_ahead audioContext evs (step audioContext (Play base64Audio currentTime) st))"
| "clock_never_ahead audioContext (Ended n # evs) st =
     clock_never_ahead audioContext evs (step audioContext (Ended n) st)"

definition initial_playback :: playback where
  "initial_playback = \<lparr>nextStartTime = 0, audioSources = [], device_schedule = []\<rparr>"

definition end_time :: "AudioBufferSourceNode \<Rightarrow> real" where
  "end_time s = start_time s + duration (node_buffer s)"

section \<open>WAV serialisation (encodeWAV)\<close>

text \<open>
  A \<^verbatim>\<open>DataView\<close> over a whole \<^verbatim>\<open>ArrayBuffer\<close> is the list of its bytes. A setter throws
  a \<^verbatim>\<open>RangeError\<close> when the value does not fit between the offset and the end of the
  view; with \<^verbatim>\<open>littleEndian = true\<close> the low byte comes first. The integer arguments
  are non-negative here and are reduced modulo \<open>2^8\<close>, \<open>2^16\<close> or \<open>2^32\<close>.
\<close>

definition setUint8 :: "byte list \<Rightarrow> nat \<Rightarrow> nat \<Rightarrow> audio_error + byte list" where
  "setUint8 view byteOffset v =
     (if byteOffset + 1 \<le> length view then Inr (view[byteOffset := word_of_nat v])
      else Inl RangeError)"

definition setUint16 :: "byte list \<Rightarrow> nat \<Rightarrow> nat \<Rightarrow> audio_error + byte list" where
  "setUint16 view byteOffset v =
     (let w = (word_of_nat v :: 16 word)
      in if byteOffset + 2 \<le> length view
         then Inr (view[byteOffset := ucast w, byteOffset + 1 := ucast (drop_bit 8 w)])
         else Inl RangeError)"

definition setUint32 :: "byte list \<Rightarrow> nat \<Rightarrow> nat \<Rightarrow> audio_error + byte list" where
  "setUint32 view byteOffset v =
     (let w = (word_of_nat v :: 32 word)
      in if byteOffset + 4 \<le> length view
         then Inr (view[byteOffset := ucast w, byteOffset + 1 := ucast (drop_bit 8 w),
                        byteOffset + 2 := ucast (drop_bit 16 w),
                        byteOffset + 3 := ucast (drop_bit 24 w)])
         else Inl RangeError)"

definition setInt16 :: "byte list \<Rightarrow> nat \<Rightarrow> real \<Rightarrow> audio_error + byte list" where
  "setInt16 view byteOffset v =
     (let w = ToInt16 v
      in if byteOffset + 2 \<le> length view
         then Inr (view[byteOffset := ucast w, byteOffset + 1 := ucast (drop_bit 8 w)])
         else Inl RangeError)"

text \<open>The getters, for reading a header back (little-endian).\<close>

definition getUint16 :: "byte list \<Rightarrow> nat \<Rightarrow> nat option" where
  "getUint16 view byteOffset =
     (if byteOffset + 2 \<le> length view
      then Some (unat (view ! byteOffset) + 256 * unat (view ! (byteOffset + 1)))
      else None)"

definition getUint32 :: "byte list \<Rightarrow> nat \<Rightarrow> nat option" where
  "getUint32 view byteOffset =
     (if byteOffset + 4 \<le> length view
      then Some (unat (view ! byteOffset) + 256 * unat (view ! (byteOffset + 1)) +
                 65536 * unat (view ! (byteOffset + 2)) +
                 16777216 * unat (view ! (byteOffset + 3)))
      else None)"

text \<open>Sequencing of steps that may throw.\<close>

definition and_then :: "audio_error + 'a \<Rightarrow> ('a \<Rightarrow> audio_error + 'b) \<Rightarrow> audio_error + 'b" where
  "and_then r f = (case r of Inl e \<Rightarrow> Inl e | Inr v \<Rightarrow> f v)"

fun writeString :: "byte list \<Rightarrow> nat \<Rightarrow> string \<Rightarrow> audio_error + byte list" where
  "writeString view offset' [] = Inr view"
| "writeString view offset' (c # cs) =
     and_then (setUint8 view offset' (of_char c)) (\<lambda>view'. writeString view' (offset' + 1) cs)"

fun floatTo16BitPCM :: "byte list \<Rightarrow> nat \<Rightarrow> real list \<Rightarrow> audio_error + byte list" where
  "floatTo16BitPCM output offset' [] = Inr output"
| "floatTo16BitPCM output offset' (x # input) =
     (let s = max (-1) (min 1 x)
      in and_then (setInt16 output offset' (if s < 0 then s * 0x8000 else s * 0x7FFF))
           (\<lambda>output'. floatTo16BitPCM output' (offset' + 2) input))"

record Blob =
  blob_bytes :: "byte list"
  blob_type :: string

definition encodeWAV :: "AudioBuffer \<Rightarrow> audio_error + Blob" where
  "encodeWAV audioBuffer =
     (let numChannels = numberOfChannels audioBuffer;
          sampleRate' = sampleRate audioBuffer
      in and_then (getChannelData audioBuffer 0) (\<lambda>samples.
         let dataLength = length samples * 2;
             view = replicate (44 + dataLength) (0 :: byte)
         in and_then (writeString view 0 ''RIFF'') (\<lambda>view.
            and_then (setUint32 view 4 (36 + dataLength)) (\<lambda>view.
            and_then (writeString view 8 ''WAVE'') (\<lambda>view.
            and_then (writeString view 12 ''fmt '') (\<lambda>view.
            and_then (setUint32 view 16 16) (\<lambda>view.
            and_then (setUint16 view 20 1) (\<lambda>view.
            and_then (setUint16 view 22 numChannels) (\<lambda>view.
            and_then (setUint32 view 24 sampleRate') (\<lambda>view.
            and_then (setUint32 view 28 (sampleRate' * numChannels * 2)) (\<lambda>view.
            and_then (setUint16 view 32 (numChannels * 2)) (\<lambda>view.
            and_then (setUint16 view 34 16) (\<lambda>view.
            and_then (writeString view 36 ''data'') (\<lambda>view.
            and_then (setUint32 view 40 dataLength) (\<lambda>view.
            and_then (floatTo16BitPCM view 44 samples) (\<lambda>view.
            Inr \<lparr>blob_bytes = view, blob_type = ''audio/wav''\<rparr>))))))))))))))))"

subsection \<open>The encoding of a sample as the specification words it\<close>

text \<open>
  Clamp to \<open>[-1, 1]\<close>, scale by \<open>0x7FFF\<close> when non-negative and by \<open>0x8000\<close> when
  negative, truncate towards zero; and the two bytes of a 16-bit two's complement integer,
  low byte first.
\<close>

definition clamp_sample :: "real \<Rightarrow> real" where
  "clamp_sample x = (if x < -1 then -1 else if x > 1 then 1 else x)"

definition spec_pcm16 :: "real \<Rightarrow> int" where
  "spec_pcm16 x =
     (if clamp_sample x < 0 then js_trunc (clamp_sample x * 32768)
      else js_trunc (clamp_sample x * 32767))"

text \<open>The signed 16-bit value of two bytes, low byte first.\<close>

definition le_int16 :: "byte \<Rightarrow> byte \<Rightarrow> int" where
  "le_int16 lo hi =
     (let u = int (unat lo) + 256 * int (unat hi) in if u < 32768 then u else u - 65536)"

definition le16_bytes :: "int \<Rightarrow> byte list" where
  "le16_bytes i = [word_of_int (i mod 256), word_of_int ((i div 256) mod 256)]"

subsection \<open>The WAV header as the specification words it\<close>

text \<open>
  Unsigned little-endian fields of two and four bytes, the bytes of an ASCII tag, and the
  44 bytes of the canonical header for 16-bit PCM.
\<close>

definition u16le :: "nat \<Rightarrow> byte list" where
  "u16le v = [word_of_nat (v mod 256), word_of_nat (v div 256 mod 256)]"

definition u32le :: "nat \<Rightarrow> byte list" where
  "u32le v = [word_of_nat (v mod 256), word_of_nat (v div 256 mod 256),
              word_of_nat (v div 65536 mod 256), word_of_nat (v div 16777216 mod 256)]"

definition ascii :: "string \<Rightarrow> byte list" where
  "ascii s = map (\<lambda>c. word_of_nat (of_char c)) s"

definition wav_header :: "nat \<Rightarrow> nat \<Rightarrow> nat \<Rightarrow> byte list" where
  "wav_header numChannels sampleRate' dataLength =
     ascii ''RIFF'' @ u32le (36 + dataLength) @ ascii ''WAVE'' @
     ascii ''fmt '' @ u32le 16 @ u16le 1 @ u16le numChannels @ u32le sampleRate' @
     u32le (sampleRate' * numChannels * 2) @ u16le (numChannels * 2) @ u16le 16 @
     ascii ''data'' @ u32le dataLength"

subsection \<open>The suggested delay as the specification words it\<close>



subsection \<open>Decoded audio as the specification words it\<close>

text \<open>
  The buffer for interleaved 16-bit PCM: \<open>length div (2 * channelCount)\<close> frames, where
  sample \<open>i\<close> of channel \<open>c\<close> is the little-endian signed 16-bit value at sample position
  \<open>i * channelCount + c\<close>, divided by 32768.
\<close>

definition pcm_buffer :: "byte list \<Rightarrow> nat \<Rightarrow> nat \<Rightarrow> AudioBuffer" where
  "pcm_buffer data sampleRate' numChannels =
     \<lparr>sampleRate = sampleRate',
      channelData =
        map (\<lambda>channel.
               map (\<lambda>i. real_of_int (le_int16 (data ! (2 * (i * numChannels + channel)))
                                           (data ! (2 * (i * numChannels + channel) + 1))) / 32768)
                 [0 ..< length data div (2 * numChannels)])
          [0 ..< numChannels]\<rparr>"

subsection \<open>The chunks of a playback stream as the specification words them\<close>

text \<open>
  A chunk is the base64 text of 16-bit mono PCM at 24000 Hz: it is playable when it
  decodes to a non-empty sequence of whole samples (fewer than \<open>2^32\<close> of them), and its
  duration is the number of its samples over 24000. A sequence of calls, each a chunk with
  the reading of the device clock, is on time from a cursor when no reading is past the
  cursor that the durations of the chunks before it give.
\<close>

definition playable :: "string \<Rightarrow> bool" where
  "playable chunk =
     (chunk \<noteq> [] \<and>
      (case decode chunk of
         Inl e \<Rightarrow> False
       | Inr bytes \<Rightarrow> bytes \<noteq> [] \<and> even (length bytes) \<and> length bytes div 2 < 2 ^ 32))"

definition chunk_duration :: "string \<Rightarrow> real" where
  "chunk_duration chunk =
     (case decode chunk of
        Inl e \<Rightarrow> 0
      | Inr bytes \<Rightarrow> real (length bytes div 2) / 24000)"

fun on_time :: "real \<Rightarrow> (string \<times> real) list \<Rightarrow> bool" where
  "on_time cursor [] = True"
| "on_time cursor ((chunk, currentTime) # calls) =
     (currentTime \<le> cursor \<and> on_time (cursor + chunk_duration chunk) calls)"

definition play_event :: "string \<times> real \<Rightarrow> event" where
  "play_event call = Play (fst call) (snd call)"

text \<open>
  The schedule that the specification predicts for a sequence of calls: the start time
  and the duration of every chunk, where each chunk starts at the cursor and moves the
  cursor on by its duration.
\<close>

fun expected_schedule :: "real \<Rightarrow> (string \<times> real) list \<Rightarrow> (real \<times> real) list" where
  "expected_schedule cursor [] = []"
| "expected_schedule cursor ((chunk, currentTime) # calls) =
     (cursor, chunk_duration chunk) # expected_schedule (cursor + chunk_duration chunk) calls"

section \<open>Scripted operations for concrete runs\<close>

text \<open>
  An operation that throws the errors \<open>es\<close> in turn, one per invocation, and then
  resolves with \<open>v\<close>; and a remote service that behaves so whatever the request.
\<close>

definition fails_then :: "api_error list \<Rightarrow> 'a \<Rightarrow> nat \<Rightarrow> api_error + 'a" where
  "fails_then es v k = (if k < length es then Inl (es ! k) else Inr v)"

definition remote_failing ::
  "api_error list \<Rightarrow> response \<Rightarrow> request \<Rightarrow> nat \<Rightarrow> api_error + response" where
  "remote_failing es r req k = fails_then es r k"

text \<open>A parser that rejects every input.\<close>

definition json_reject :: "string \<Rightarrow> api_error + json" where
  "json_reject s = Inl (js_Error ''Unexpected token'')"

text \<open>
  Four errors of the remote service: unavailable (503), rate-limited (429) with a
  suggested delay given as text, rate-limited with details that hold no \<^verbatim>\<open>RetryInfo\<close>
  entry, and a bad request (400).
\<close>

definition unavailable :: api_error where
  "unavailable = \<lparr>code = Some 503, status = Some ''UNAVAILABLE'',
     message = Some ''The service is currently unavailable.'', details = None\<rparr>"

definition rate_limited :: "string \<Rightarrow> api_error" where
  "rate_limited delay =
     \<lparr>code = Some 429, status = Some ''RESOURCE_EXHAUSTED'',
      message = Some ''You exceeded your current quota.'',
      details = Some [\<lparr>at_type = ''type.googleapis.com/google.rpc.QuotaFailure'', retryDelay = None\<rparr>,
                      \<lparr>at_type = ''type.googleapis.com/google.rpc.RetryInfo'',
                       retryDelay = Some delay\<rparr>]\<rparr>"


definition bad_request :: api_error where
  "bad_request = \<lparr>code = Some 400, status = Some ''INVALID_ARGUMENT'',
     message = Some ''Request contains an invalid argument.'', details = None\<rparr>"

text \<open>An audio context with the least ranges that the standard allows.\<close>

definition least_context :: AudioContext where
  "least_context = \<lparr>maxChannels = 32, minSampleRate = 8000, maxSampleRate = 96000\<rparr>"

section \<open>Verification of the retry loop\<close>

subsection \<open>Rounding to a number\<close>










subsection \<open>The loop\<close>

lemma retry_loop_invocations:
  "retries \<le> maxRetries \<Longrightarrow>
   invocations (retry_loop fn maxRetries factor retries delay calls slept)
     \<le> calls + nat (maxRetries - retries) + 1"
proof (induction fn maxRetries factor retries delay calls slept rule: retry_loop.induct)
  case (1 fn maxRetries factor retries delay calls slept)
  show ?case
  proof (cases "fn calls")
    case (Inr v)
    then show ?thesis by (subst retry_loop.simps) simp
  next
    case (Inl error)
    show ?thesis
    proof (cases "\<not> isRetryableError error \<or> retries \<ge> maxRetries")
      case True
      with Inl show ?thesis by (subst retry_loop.simps) auto
    next
      case False
      then have lt: "retries < maxRetries" by simp
      have "invocations (retry_loop fn maxRetries factor (retries + 1)
              (if greater_than_zero (customRetryDelay error) then customRetryDelay error else number_times delay factor)
              (Suc calls)
              (slept @ [if greater_than_zero (customRetryDelay error) then customRetryDelay error else number_times delay factor]))
            \<le> Suc calls + nat (maxRetries - (retries + 1)) + 1"
        using "1.IH"[OF Inl False refl refl] lt by simp
      with Inl False lt show ?thesis
        by (subst retry_loop.simps) (simp add: Let_def nat_diff_distrib)
    qed
  qed
qed

text \<open>k retryable failures followed by a terminal event\<close>

lemma retry_loop_failure:
  "(\<forall>j<k. \<exists>e'. fn (calls + j) = Inl e' \<and> isRetryableError e') \<Longrightarrow>
   fn (calls + k) = Inl e \<Longrightarrow>
   \<not> isRetryableError e \<or> retries + int k \<ge> maxRetries \<Longrightarrow>
   retries + int k \<le> maxRetries \<or> k = 0 \<Longrightarrow>
   outcome (retry_loop fn maxRetries factor retries delay calls slept) = Inl e \<and>
   invocations (retry_loop fn maxRetries factor retries delay calls slept) = calls + k + 1"
proof (induction k arbitrary: retries delay calls slept)
  case 0
  then show ?case by (subst (1 2) retry_loop.simps) auto
next
  case (Suc k)
  from Suc.prems(1) obtain e0 where e0: "fn calls = Inl e0" "isRetryableError e0"
    by force
  from Suc.prems(4) have lt: "retries < maxRetries" by simp
  define d where "d = (if greater_than_zero (customRetryDelay e0) then customRetryDelay e0 else number_times delay factor)"
  have step: "retry_loop fn maxRetries factor retries delay calls slept =
        retry_loop fn maxRetries factor (retries + 1) d (Suc calls) (slept @ [d])"
    using e0 lt by (subst retry_loop.simps) (simp add: Let_def d_def)
  have a: "\<forall>j<k. \<exists>e'. fn (Suc calls + j) = Inl e' \<and> isRetryableError e'"
    using Suc.prems(1) by (metis Suc_less_eq add_Suc_shift)
  have b: "fn (Suc calls + k) = Inl e" using Suc.prems(2) by simp
  have c: "\<not> isRetryableError e \<or> (retries + 1) + int k \<ge> maxRetries"
    using Suc.prems(3) by auto
  have d': "(retries + 1) + int k \<le> maxRetries \<or> k = 0" using Suc.prems(4) by simp
  from Suc.IH[OF a b c d'] show ?case unfolding step by simp
qed

lemma retry_loop_success:
  "(\<forall>j<k. \<exists>e'. fn (calls + j) = Inl e' \<and> isRetryableError e') \<Longrightarrow>
   fn (calls + k) = Inr v \<Longrightarrow>
   retries + int k \<le> maxRetries \<or> k = 0 \<Longrightarrow>
   outcome (retry_loop fn maxRetries factor retries delay calls slept) = Inr v \<and>
   invocations (retry_loop fn maxRetries factor retries delay calls slept) = calls + k + 1"
proof (induction k arbitrary: retries delay calls slept)
  case 0
  then show ?case by (subst (1 2) retry_loop.simps) auto
next
  case (Suc k)
  from Suc.prems(1) obtain e0 where e0: "fn calls = Inl e0" "isRetryableError e0"
    by force
  from Suc.prems(3) have lt: "retries < maxRetries" by simp
  define d where "d = (if greater_than_zero (customRetryDelay e0) then customRetryDelay e0 else number_times delay factor)"
  have step: "retry_loop fn maxRetries factor retries delay calls slept =
        retry_loop fn maxRetries factor (retries + 1) d (Suc calls) (slept @ [d])"
    using e0 lt by (subst retry_loop.simps) (simp add: Let_def d_def)
  have a: "\<forall>j<k. \<exists>e'. fn (Suc calls + j) = Inl e' \<and> isRetryableError e'"
    using Suc.prems(1) by (metis Suc_less_eq add_Suc_shift)
  have b: "fn (Suc calls + k) = Inr v" using Suc.prems(2) by simp
  have d': "(retries + 1) + int k \<le> maxRetries \<or> k = 0" using Suc.prems(3) by simp
  from Suc.IH[OF a b d'] show ?case unfolding step by simp
qed

text \<open>the converse: what a failed or successful run looked like\<close>

lemma retry_loop_shape:
  "\<exists>k. invocations (retry_loop fn maxRetries factor retries delay calls slept) = calls + k + 1 \<and>
       (\<forall>j<k. \<exists>e'. fn (calls + j) = Inl e' \<and> isRetryableError e' \<and> retries + int j < maxRetries) \<and>
       (case fn (calls + k) of
          Inr v \<Rightarrow> outcome (retry_loop fn maxRetries factor retries delay calls slept) = Inr v
        | Inl e \<Rightarrow> outcome (retry_loop fn maxRetries factor retries delay calls slept) = Inl e \<and>
                   (\<not> isRetryableError e \<or> retries + int k \<ge> maxRetries))"
proof (induction fn maxRetries factor retries delay calls slept rule: retry_loop.induct)
  case (1 fn maxRetries factor retries delay calls slept)
  show ?case
  proof (cases "fn calls")
    case (Inr v)
    then have "retry_loop fn maxRetries factor retries delay calls slept =
        \<lparr>outcome = Inr v, invocations = Suc calls, timeouts = slept\<rparr>"
      by (subst retry_loop.simps) simp
    with Inr show ?thesis by (intro exI[of _ 0]) simp
  next
    case (Inl error)
    show ?thesis
    proof (cases "\<not> isRetryableError error \<or> retries \<ge> maxRetries")
      case True
      with Inl have "retry_loop fn maxRetries factor retries delay calls slept =
        \<lparr>outcome = Inl error, invocations = Suc calls, timeouts = slept\<rparr>"
        by (subst retry_loop.simps) auto
      with Inl True show ?thesis by (intro exI[of _ 0]) auto
    next
      case False
      define d where "d = (if greater_than_zero (customRetryDelay error) then customRetryDelay error
        else number_times delay factor)"
      have step: "retry_loop fn maxRetries factor retries delay calls slept =
        retry_loop fn maxRetries factor (retries + 1) d (Suc calls) (slept @ [d])"
        using Inl False by (subst retry_loop.simps) (simp add: Let_def d_def)
      from "1.IH"[OF Inl False refl refl, folded d_def]
      obtain k where k:
        "invocations (retry_loop fn maxRetries factor (retries + 1) d (Suc calls) (slept @ [d])) = Suc calls + k + 1"
        "\<forall>j<k. \<exists>e'. fn (Suc calls + j) = Inl e' \<and> isRetryableError e' \<and> retries + 1 + int j < maxRetries"
        "case fn (Suc calls + k) of
          Inr v \<Rightarrow> outcome (retry_loop fn maxRetries factor (retries + 1) d (Suc calls) (slept @ [d])) = Inr v
        | Inl e \<Rightarrow> outcome (retry_loop fn maxRetries factor (retries + 1) d (Suc calls) (slept @ [d])) = Inl e \<and>
                   (\<not> isRetryableError e \<or> retries + 1 + int k \<ge> maxRetries)"
        by blast
      have "\<forall>j<Suc k. \<exists>e'. fn (calls + j) = Inl e' \<and> isRetryableError e' \<and> retries + int j < maxRetries"
      proof (intro allI impI)
        fix j assume "j < Suc k"
        show "\<exists>e'. fn (calls + j) = Inl e' \<and> isRetryableError e' \<and> retries + int j < maxRetries"
        proof (cases j)
          case 0
          with Inl False show ?thesis by auto
        next
          case (Suc j')
          with \<open>j < Suc k\<close> k(2) show ?thesis by auto
        qed
      qed
      moreover have "invocations (retry_loop fn maxRetries factor retries delay calls slept) = calls + Suc k + 1"
        using k(1) step by simp
      moreover have "case fn (calls + Suc k) of
          Inr v \<Rightarrow> outcome (retry_loop fn maxRetries factor retries delay calls slept) = Inr v
        | Inl e \<Rightarrow> outcome (retry_loop fn maxRetries factor retries delay calls slept) = Inl e \<and>
                   (\<not> isRetryableError e \<or> retries + int (Suc k) \<ge> maxRetries)"
        using k(3) step by (auto split: sum.splits)
      ultimately show ?thesis by blast
    qed
  qed
qed




















lemma retry_terminal_failure:
  assumes "terminal_failure fn maxRetries k e"
  shows "outcome (retry fn maxRetries initialDelayMs factor) = Inl e"
    and "invocations (retry fn maxRetries initialDelayMs factor) = k + 1"
proof -
  have a: "\<forall>j<k. \<exists>e'. fn (0 + j) = Inl e' \<and> isRetryableError e'"
  proof (intro allI impI)
    fix j assume "j < k"
    with assms have "case fn j of Inl e' \<Rightarrow> isRetryableError e' | Inr v \<Rightarrow> False"
      by (simp add: terminal_failure_def)
    then show "\<exists>e'. fn (0 + j) = Inl e' \<and> isRetryableError e'"
      by (cases "fn j") simp_all
  qed
  have b: "fn (0 + k) = Inl e" using assms by (simp add: terminal_failure_def)
  have c: "\<not> isRetryableError e \<or> 0 + int k \<ge> maxRetries"
    using assms by (auto simp: terminal_failure_def)
  have d: "0 + int k \<le> maxRetries \<or> k = 0" using assms by (simp add: terminal_failure_def)
  from retry_loop_failure[OF a b c d, of factor initialDelayMs "[]"]
  show "outcome (retry fn maxRetries initialDelayMs factor) = Inl e"
    and "invocations (retry fn maxRetries initialDelayMs factor) = k + 1"
    by (simp_all add: retry_def)
qed

section \<open>The claims about the retry loop and the remote operations\<close>

text \<open>
  Claim C1. With a retry policy whose \<open>maxRetries\<close> is \<open>n \<ge> 0\<close>, \<^verbatim>\<open>retry\<close> invokes the
  operation at most \<open>n + 1\<close> times, whatever the operation does. An operation that fails
  twice with retryable errors and then succeeds is, with \<open>maxRetries = 3\<close>, invoked exactly
  3 times and the call succeeds with its value; an operation whose first two attempts fail
  with retryable errors makes the call fail, with \<open>maxRetries = 1\<close>, after exactly 2
  invocations with the very error of the second invocation. (That \<^verbatim>\<open>retry\<close> returns at
  all is the termination proof of \<open>retry_loop\<close>.)
\<close>

theorem retry_invocation_ceiling:
  fixes fn :: "nat \<Rightarrow> api_error + 'a"
  shows "(0 \<le> maxRetries \<longrightarrow>
            invocations (retry fn maxRetries initialDelayMs factor) \<le> nat maxRetries + 1) \<and>
         (fn 0 = Inl e0 \<and> isRetryableError e0 \<and> fn 1 = Inl e1 \<and> isRetryableError e1 \<and>
          fn 2 = Inr v \<longrightarrow>
            outcome (retry fn 3 initialDelayMs factor) = Inr v \<and>
            invocations (retry fn 3 initialDelayMs factor) = 3) \<and>
         (fn 0 = Inl e0 \<and> isRetryableError e0 \<and> fn 1 = Inl e1 \<and> isRetryableError e1 \<longrightarrow>
            outcome (retry fn 1 initialDelayMs factor) = Inl e1 \<and>
            invocations (retry fn 1 initialDelayMs factor) = 2)"
proof (intro conjI impI)
  assume "0 \<le> maxRetries"
  then show "invocations (retry fn maxRetries initialDelayMs factor) \<le> nat maxRetries + 1"
    using retry_loop_invocations[of 0 maxRetries fn factor initialDelayMs 0 "[]"]
    by (simp add: retry_def)
next
  assume a: "fn 0 = Inl e0 \<and> isRetryableError e0 \<and> fn 1 = Inl e1 \<and> isRetryableError e1 \<and> fn 2 = Inr v"
  have "\<forall>j<2. \<exists>e'. fn (0 + j) = Inl e' \<and> isRetryableError e'"
    using a by (auto simp: less_Suc_eq numeral_2_eq_2)
  moreover have "fn (0 + 2) = Inr v" using a by (simp add: numeral_2_eq_2)
  ultimately have "outcome (retry_loop fn 3 factor 0 initialDelayMs 0 []) = Inr v \<and>
     invocations (retry_loop fn 3 factor 0 initialDelayMs 0 []) = 0 + 2 + 1"
    by (intro retry_loop_success) auto
  then show "outcome (retry fn 3 initialDelayMs factor) = Inr v"
    and "invocations (retry fn 3 initialDelayMs factor) = 3"
    by (simp_all add: retry_def)
next
  assume a: "fn 0 = Inl e0 \<and> isRetryableError e0 \<and> fn 1 = Inl e1 \<and> isRetryableError e1"
  have "\<forall>j<1. \<exists>e'. fn (0 + j) = Inl e' \<and> isRetryableError e'"
    using a by auto
  moreover have "fn (0 + 1) = Inl e1" using a by simp
  ultimately have "outcome (retry_loop fn 1 factor 0 initialDelayMs 0 []) = Inl e1 \<and>
     invocations (retry_loop fn 1 factor 0 initialDelayMs 0 []) = 0 + 1 + 1"
    by (intro retry_loop_failure) auto
  then show "outcome (retry fn 1 initialDelayMs factor) = Inl e1"
    and "invocations (retry fn 1 initialDelayMs factor) = 2"
    by (simp_all add: retry_def)
qed

text \<open>Witness for C1: the service is unavailable, then rate-limited, then answers.\<close>

theorem retry_invocation_ceiling_witness:
  "(0::int) \<le> 3 \<and> isRetryableError unavailable \<and> isRetryableError (rate_limited ''5s'') \<and>
   invocations (retry (fails_then [unavailable, rate_limited ''5s''] ''ok'') 3 (Finite 1000) (Finite 2)) \<le> nat 3 + 1 \<and>
   outcome (retry (fails_then [unavailable, rate_limited ''5s''] ''ok'') 3 (Finite 1000) (Finite 2)) = Inr ''ok'' \<and>
   invocations (retry (fails_then [unavailable, rate_limited ''5s''] ''ok'') 3 (Finite 1000) (Finite 2)) = 3 \<and>
   outcome (retry (fails_then [unavailable, rate_limited ''5s''] ''ok'') 1 (Finite 1000) (Finite 2))
     = Inl (rate_limited ''5s'') \<and>
   invocations (retry (fails_then [unavailable, rate_limited ''5s''] ''ok'') 1 (Finite 1000) (Finite 2)) = 2"
proof -
  have r: "isRetryableError unavailable" "isRetryableError (rate_limited ''5s'')"
    by (simp_all add: isRetryableError_def isApiError_def unavailable_def rate_limited_def)
  have f: "fails_then [unavailable, rate_limited ''5s''] ''ok'' 0 = Inl unavailable"
    "fails_then [unavailable, rate_limited ''5s''] ''ok'' 1 = Inl (rate_limited ''5s'')"
    "fails_then [unavailable, rate_limited ''5s''] ''ok'' 2 = Inr ''ok''"
    by (simp_all add: fails_then_def)
  from retry_invocation_ceiling[where fn = "fails_then [unavailable, rate_limited ''5s''] ''ok''"
      and maxRetries = 3 and initialDelayMs = "Finite 1000" and factor = "Finite 2"
      and ?e0.0 = unavailable and ?e1.0 = "rate_limited ''5s''" and v = "''ok''"] r f
  show ?thesis by simp
qed


text \<open>
  A suggestion beyond \<open>2^53\<close>: the digits are rounded to the nearest double before the
  multiplication.
\<close>

lemma rounded_suggestion:
  "customRetryDelay (rate_limited ''9007199254740993s'') = Finite 9007199254740992000"
proof -
  have "decimal_value ''9007199254740993'' = 9007199254740993"
    by (simp add: decimal_value_def digit_value_def)
  moreover have "number_value 9007199254740993 = Finite 9007199254740992"
    by (simp add: number_value_def binary_exponent_def bit_length.simps round_half_even_def Let_def)
  moreover have "number_value (9007199254740992 * 1000) = Finite 9007199254740992000"
    by (simp add: number_value_def binary_exponent_def bit_length.simps round_half_even_def Let_def)
  ultimately show ?thesis
    by (simp add: customRetryDelay_def rate_limited_def isRetryInfo_def isDigit_def parseInt10_def)
qed




text \<open>
  Whatever error \<^verbatim>\<open>retry\<close> rejects with is the error of a terminal failure: no error is
  made up, and none is rejected while a retry is still due.
\<close>

lemma retry_failure_is_terminal:
  assumes "outcome (retry fn maxRetries initialDelayMs factor) = Inl e" "0 \<le> maxRetries"
  shows "\<exists>k. terminal_failure fn maxRetries k e"
proof -
  from retry_loop_shape[of fn maxRetries factor 0 initialDelayMs 0 "[]"]
  obtain k where k:
    "\<forall>j<k. \<exists>e'. fn (0 + j) = Inl e' \<and> isRetryableError e' \<and> 0 + int j < maxRetries"
    "case fn (0 + k) of
       Inr v \<Rightarrow> outcome (retry_loop fn maxRetries factor 0 initialDelayMs 0 []) = Inr v
     | Inl e' \<Rightarrow> outcome (retry_loop fn maxRetries factor 0 initialDelayMs 0 []) = Inl e' \<and>
                 (\<not> isRetryableError e' \<or> 0 + int k \<ge> maxRetries)"
    by blast
  from k(2) assms(1) have last: "fn k = Inl e" "\<not> isRetryableError e \<or> int k \<ge> maxRetries"
    by (auto simp: retry_def split: sum.splits)
  have le: "int k \<le> maxRetries"
  proof (cases k)
    case 0
    with assms(2) show ?thesis by simp
  next
    case (Suc j)
    with k(1) have "int j < maxRetries" by auto
    with Suc show ?thesis by simp
  qed
  have "\<forall>j<k. case fn j of Inl e' \<Rightarrow> isRetryableError e' | Inr v \<Rightarrow> False"
    using k(1) by auto
  with last le show ?thesis by (auto simp: terminal_failure_def)
qed

text \<open>
  Claim C3, as amended. When an invocation of the remote call is a terminal failure with
  error \<open>e\<close> (fatal, or the retry count has reached \<^verbatim>\<open>API_MAX_RETRIES\<close>), the callers of
  \<^verbatim>\<open>translateText\<close> and of \<^verbatim>\<open>generateSpeech\<close> (on text that is not blank) receive
  exactly \<open>e\<close>, with all its fields; \<^verbatim>\<open>detectLanguage\<close> catches the error and its caller
  receives \<^verbatim>\<open>null\<close>. Conversely, an error that the caller of \<^verbatim>\<open>translateText\<close> or of
  \<^verbatim>\<open>generateSpeech\<close> receives is the error of a terminal failure.
\<close>

theorem terminal_failure_reaches_caller:
  "(terminal_failure (generateContent (translate_request text' target thinking source))
       API_MAX_RETRIES k e \<longrightarrow>
      translateText generateContent text' target thinking source = Inl e) \<and>
   (trim text' \<noteq> [] \<and> terminal_failure (speech_attempt generateContent text') API_MAX_RETRIES k e \<longrightarrow>
      generateSpeech generateContent text' = Inl e) \<and>
   (terminal_failure (generateContent (detect_request text')) API_MAX_RETRIES k e \<longrightarrow>
      detectLanguage generateContent JSON_parse text' = None) \<and>
   (translateText generateContent text' target thinking source = Inl e \<longrightarrow>
      (\<exists>n. terminal_failure (generateContent (translate_request text' target thinking source))
             API_MAX_RETRIES n e)) \<and>
   (generateSpeech generateContent text' = Inl e \<longrightarrow>
      (\<exists>n. terminal_failure (speech_attempt generateContent text') API_MAX_RETRIES n e))"
proof (intro conjI impI)
  assume "translateText generateContent text' target thinking source = Inl e"
  then have "outcome (retry (generateContent (translate_request text' target thinking source))
      API_MAX_RETRIES API_RETRY_INITIAL_DELAY_MS API_RETRY_BACKOFF_FACTOR) = Inl e"
    by (simp add: translateText_def split: sum.splits)
  then show "\<exists>n. terminal_failure (generateContent (translate_request text' target thinking source))
             API_MAX_RETRIES n e"
    by (rule retry_failure_is_terminal) (simp add: API_MAX_RETRIES_def)
next
  assume "generateSpeech generateContent text' = Inl e"
  then have "outcome (retry (speech_attempt generateContent text')
      API_MAX_RETRIES API_RETRY_INITIAL_DELAY_MS API_RETRY_BACKOFF_FACTOR) = Inl e"
    by (simp add: generateSpeech_def split: sum.splits if_splits)
  then show "\<exists>n. terminal_failure (speech_attempt generateContent text') API_MAX_RETRIES n e"
    by (rule retry_failure_is_terminal) (simp add: API_MAX_RETRIES_def)
qed (auto simp: translateText_def generateSpeech_def detectLanguage_def retry_terminal_failure(1))

text \<open>Witness for C3: an unavailable service that then rejects the request.\<close>

theorem terminal_failure_reaches_caller_witness:
  "terminal_failure
     (remote_failing [unavailable, bad_request] \<lparr>response_text = ''hello'', inlineData_data = None\<rparr>
        (translate_request ''hola'' ''English'' False (Some ''es'')))
     API_MAX_RETRIES 1 bad_request \<and>
   translateText
     (remote_failing [unavailable, bad_request] \<lparr>response_text = ''hello'', inlineData_data = None\<rparr>)
     ''hola'' ''English'' False (Some ''es'') = Inl bad_request \<and>
   trim ''hola'' \<noteq> [] \<and>
   terminal_failure
     (speech_attempt
        (remote_failing [unavailable, bad_request] \<lparr>response_text = ''hello'', inlineData_data = None\<rparr>)
        ''hola'')
     API_MAX_RETRIES 1 bad_request \<and>
   generateSpeech
     (remote_failing [unavailable, bad_request] \<lparr>response_text = ''hello'', inlineData_data = None\<rparr>)
     ''hola'' = Inl bad_request \<and>
   detectLanguage
     (remote_failing [unavailable, bad_request] \<lparr>response_text = ''hello'', inlineData_data = None\<rparr>)
     json_reject ''hola'' = None"
proof -
  let ?gc = "remote_failing [unavailable, bad_request] \<lparr>response_text = ''hello'', inlineData_data = None\<rparr>"
  have r: "isRetryableError unavailable" "\<not> isRetryableError bad_request"
    by (simp_all add: isRetryableError_def isApiError_def message_includes_def
        unavailable_def bad_request_def)
  have t: "terminal_failure (?gc req) API_MAX_RETRIES 1 bad_request" for req
    using r by (simp add: terminal_failure_def remote_failing_def fails_then_def API_MAX_RETRIES_def)
  have s: "terminal_failure (speech_attempt ?gc ''hola'') API_MAX_RETRIES 1 bad_request"
    using r by (simp add: terminal_failure_def speech_attempt_def remote_failing_def fails_then_def
        API_MAX_RETRIES_def)
  have n: "trim ''hola'' \<noteq> []" by (simp add: trim_def isWhiteSpace_def)
  from terminal_failure_reaches_caller[where generateContent = ?gc and text' = "''hola''"
      and target = "''English''" and thinking = False and source = "Some ''es''" and k = 1
      and e = bad_request and JSON_parse = json_reject] t s n
  show ?thesis by simp
qed

text \<open>
  Counterexample to C3 as stated: the first remote call of \<^verbatim>\<open>detectLanguage\<close> fails
  with a fatal error, and the caller receives \<^verbatim>\<open>null\<close>, not the error.
\<close>

theorem terminal_failure_reaches_caller_counterexample:
  "terminal_failure
     (remote_failing [bad_request] \<lparr>response_text = ''hello'', inlineData_data = None\<rparr>
        (detect_request ''hola''))
     API_MAX_RETRIES 0 bad_request \<and>
   detectLanguage
     (remote_failing [bad_request] \<lparr>response_text = ''hello'', inlineData_data = None\<rparr>)
     json_reject ''hola'' = None"
proof -
  have r: "\<not> isRetryableError bad_request"
    by (simp add: isRetryableError_def isApiError_def message_includes_def bad_request_def)
  have o: "outcome (retry (remote_failing [bad_request]
        \<lparr>response_text = ''hello'', inlineData_data = None\<rparr> (detect_request ''hola''))
        API_MAX_RETRIES API_RETRY_INITIAL_DELAY_MS API_RETRY_BACKOFF_FACTOR) = Inl bad_request"
    using r by (simp add: retry_def retry_loop.simps remote_failing_def fails_then_def)
  show ?thesis
    using r o by (simp add: terminal_failure_def detectLanguage_def remote_failing_def
        fails_then_def API_MAX_RETRIES_def)
qed

section \<open>Verification of the playback scheduler\<close>

lemma duration_nonneg: "0 \<le> duration b"
  by (simp add: duration_def)

lemma playAudio_cases:
  obtains (empty) "base64Audio = []" "playAudio base64Audio audioContext currentTime st = (Inr (), st)"
  | (failed) e where "base64Audio \<noteq> []"
      "decode base64Audio = Inl e \<or>
       (\<exists>data. decode base64Audio = Inr data \<and> decodeAudioData data audioContext TTS_AUDIO_SAMPLE_RATE 1 = Inl e)"
      "playAudio base64Audio audioContext currentTime st =
         (Inl e, st\<lparr>nextStartTime := max (nextStartTime st) currentTime\<rparr>)"
  | (scheduled) data audioBuffer where "base64Audio \<noteq> []"
      "decode base64Audio = Inr data"
      "decodeAudioData data audioContext TTS_AUDIO_SAMPLE_RATE 1 = Inr audioBuffer"
      "playAudio base64Audio audioContext currentTime st =
         (Inr (),
          st\<lparr>nextStartTime := max (nextStartTime st) currentTime + duration audioBuffer,
             audioSources := audioSources st @
               [\<lparr>node_id = length (device_schedule st), node_buffer = audioBuffer,
                 start_time = max (nextStartTime st) currentTime\<rparr>],
             device_schedule := device_schedule st @
               [\<lparr>node_id = length (device_schedule st), node_buffer = audioBuffer,
                 start_time = max (nextStartTime st) currentTime\<rparr>]\<rparr>)"
proof (cases "base64Audio = []")
  case True
  then show ?thesis using empty by (simp add: playAudio_def)
next
  case ne: False
  show ?thesis
  proof (cases "decode base64Audio")
    case (Inl e)
    with ne show ?thesis using failed[of e] by (simp add: playAudio_def)
  next
    case (Inr data)
    show ?thesis
    proof (cases "decodeAudioData data audioContext TTS_AUDIO_SAMPLE_RATE 1")
      case (Inl e)
      with ne Inr show ?thesis using failed[of e] by (simp add: playAudio_def)
    next
      case r: (Inr audioBuffer)
      with ne Inr show ?thesis using scheduled[of data audioBuffer]
        by (simp add: playAudio_def Let_def)
    qed
  qed
qed

lemma step_cases:
  obtains (same) "device_schedule (step audioContext ev st) = device_schedule st"
      "nextStartTime (step audioContext ev st) = nextStartTime st"
  | (raised) base64Audio currentTime where "ev = Play base64Audio currentTime"
      "device_schedule (step audioContext ev st) = device_schedule st"
      "nextStartTime (step audioContext ev st) = max (nextStartTime st) currentTime"
  | (scheduled) base64Audio currentTime node where "ev = Play base64Audio currentTime"
      "device_schedule (step audioContext ev st) = device_schedule st @ [node]"
      "start_time node = max (nextStartTime st) currentTime"
      "nextStartTime (step audioContext ev st) = end_time node"
proof (cases ev)
  case (Ended n)
  then show ?thesis using same by (simp add: on_ended_def)
next
  case (Play base64Audio currentTime)
  show ?thesis
  proof (cases base64Audio audioContext currentTime st rule: playAudio_cases)
    case empty
    with Play show ?thesis using same by simp
  next
    case (failed e)
    with Play show ?thesis using raised[of base64Audio currentTime] by simp
  next
    case (scheduled data audioBuffer)
    with Play show ?thesis
      using that(3)[of base64Audio currentTime
          "\<lparr>node_id = length (device_schedule st), node_buffer = audioBuffer,
            start_time = max (nextStartTime st) currentTime\<rparr>"]
      by (simp add: end_time_def)
  qed
qed

lemma end_time_ge_start: "start_time n \<le> end_time n"
  using duration_nonneg[of "node_buffer n"] by (simp add: end_time_def)

lemma run_events_no_overlap:
  assumes "sorted_wrt (\<lambda>a b. end_time a \<le> start_time b) (device_schedule st)"
    and "\<forall>n\<in>set (device_schedule st). end_time n \<le> nextStartTime st"
  shows "sorted_wrt (\<lambda>a b. end_time a \<le> start_time b) (device_schedule (run_events audioContext evs st)) \<and>
         (\<forall>n\<in>set (device_schedule (run_events audioContext evs st)). end_time n \<le> nextStartTime (run_events audioContext evs st))"
  using assms
proof (induction evs arbitrary: st)
  case Nil
  then show ?case by simp
next
  case (Cons ev evs)
  have "sorted_wrt (\<lambda>a b. end_time a \<le> start_time b) (device_schedule (step audioContext ev st)) \<and>
        (\<forall>n\<in>set (device_schedule (step audioContext ev st)). end_time n \<le> nextStartTime (step audioContext ev st))"
  proof (cases audioContext ev st rule: step_cases)
    case same
    with Cons.prems show ?thesis by simp
  next
    case (raised base64Audio currentTime)
    with Cons.prems show ?thesis by (auto simp: max_def)
  next
    case (scheduled base64Audio currentTime node)
    have "nextStartTime st \<le> start_time node" using scheduled(3) by simp
    with Cons.prems scheduled end_time_ge_start[of node] show ?thesis
      by (auto simp: sorted_wrt_append intro: order_trans)
  qed
  then show ?case using Cons.IH[of "step audioContext ev st"] by simp
qed

lemma run_events_sum:
  assumes "clock_never_ahead audioContext evs st"
    and "nextStartTime st = (\<Sum>n\<leftarrow>device_schedule st. duration (node_buffer n))"
  shows "nextStartTime (run_events audioContext evs st) =
         (\<Sum>n\<leftarrow>device_schedule (run_events audioContext evs st). duration (node_buffer n))"
  using assms
proof (induction evs arbitrary: st)
  case Nil
  then show ?case by simp
next
  case (Cons ev evs)
  have ahead: "clock_never_ahead audioContext evs (step audioContext ev st)"
    using Cons.prems(1) by (cases ev) simp_all
  have "nextStartTime (step audioContext ev st) = (\<Sum>n\<leftarrow>device_schedule (step audioContext ev st). duration (node_buffer n))"
  proof (cases audioContext ev st rule: step_cases)
    case same
    with Cons.prems show ?thesis by simp
  next
    case (raised base64Audio currentTime)
    with Cons.prems show ?thesis by (simp add: max_def)
  next
    case (scheduled base64Audio currentTime node)
    with Cons.prems show ?thesis by (simp add: max_def end_time_def)
  qed
  with ahead show ?case using Cons.IH[of "step audioContext ev st"] by simp
qed

lemma run_events_gapless:
  assumes "clock_never_ahead audioContext evs st"
    and "device_schedule st \<noteq> [] \<longrightarrow> end_time (last (device_schedule st)) = nextStartTime st"
    and "\<forall>j. Suc j < length (device_schedule st) \<longrightarrow>
           start_time (device_schedule st ! Suc j) = end_time (device_schedule st ! j)"
  shows "\<forall>j. Suc j < length (device_schedule (run_events audioContext evs st)) \<longrightarrow>
           start_time (device_schedule (run_events audioContext evs st) ! Suc j) =
           end_time (device_schedule (run_events audioContext evs st) ! j)"
  using assms
proof (induction evs arbitrary: st)
  case Nil
  then show ?case by simp
next
  case (Cons ev evs)
  have ahead: "clock_never_ahead audioContext evs (step audioContext ev st)"
    using Cons.prems(1) by (cases ev) simp_all
  have "(device_schedule (step audioContext ev st) \<noteq> [] \<longrightarrow>
           end_time (last (device_schedule (step audioContext ev st))) = nextStartTime (step audioContext ev st)) \<and>
        (\<forall>j. Suc j < length (device_schedule (step audioContext ev st)) \<longrightarrow>
           start_time (device_schedule (step audioContext ev st) ! Suc j) = end_time (device_schedule (step audioContext ev st) ! j))"
  proof (cases audioContext ev st rule: step_cases)
    case same
    with Cons.prems show ?thesis by simp
  next
    case (raised base64Audio currentTime)
    with Cons.prems show ?thesis by (simp add: max_def)
  next
    case (scheduled base64Audio currentTime node)
    from scheduled(1) Cons.prems(1) have "currentTime \<le> nextStartTime st" by simp
    with scheduled(3) have start: "start_time node = nextStartTime st" by simp
    have "start_time ((device_schedule st @ [node]) ! Suc j) = end_time ((device_schedule st @ [node]) ! j)"
      if "Suc j < length (device_schedule st @ [node])" for j
    proof (cases "Suc j < length (device_schedule st)")
      case True
      with Cons.prems(3) show ?thesis by (simp add: nth_append)
    next
      case False
      with that have j: "Suc j = length (device_schedule st)" by simp
      then have ne: "device_schedule st \<noteq> []" by auto
      from j have "device_schedule st ! j = last (device_schedule st)"
        using ne by (metis diff_Suc_1 last_conv_nth)
      with j ne Cons.prems(2) start show ?thesis by (simp add: nth_append)
    qed
    with scheduled show ?thesis by simp
  qed
  with ahead show ?case using Cons.IH[of "step audioContext ev st"] by simp
qed

lemma replicate_numeral_eval: "replicate (numeral k) x = x # replicate (pred_numeral k) x"
  by (simp add: numeral_eq_Suc)

lemmas base64_eval = decode_def atob_def isAsciiWhitespace_def strip_padding_def sextet_of_def
  base64_alphabet_def

lemmas decode_eval = decodeAudioData_def new_Int16Array_def createBuffer_def decode_channels.simps
  getChannelData_def decode_frames.simps element_at_def store_at_def replicate_numeral_eval

lemma decode_two_samples: "decode ''AQACAA=='' = Inr [1, 0, 2, 0]"
  by (simp add: base64_eval)

lemma decode_three_samples: "decode ''AID/fwAA'' = Inr [0, 128, 255, 127, 0, 0]"
  by (simp add: base64_eval)

lemma decode_one_byte: "decode ''QQ=='' = Inr [65]"
  by (simp add: base64_eval)

lemma decode_invalid: "decode ''!!!!'' = Inl InvalidCharacterError"
  by (simp add: base64_eval)

lemma two_frames:
  "decodeAudioData [1, 0, 2, 0] least_context TTS_AUDIO_SAMPLE_RATE (Suc 0) =
     Inr \<lparr>sampleRate = 24000, channelData = [[1 / 32768, 2 / 32768]]\<rparr>"
  by (simp add: decode_eval TTS_AUDIO_SAMPLE_RATE_def least_context_def)

lemma three_frames:
  "decodeAudioData [0, 128, 255, 127, 0, 0] least_context TTS_AUDIO_SAMPLE_RATE (Suc 0) =
     Inr \<lparr>sampleRate = 24000, channelData = [[- 1, 32767 / 32768, 0]]\<rparr>"
  by (simp add: decode_eval TTS_AUDIO_SAMPLE_RATE_def least_context_def)

lemma odd_byte_count:
  "decodeAudioData [65] audioContext TTS_AUDIO_SAMPLE_RATE (Suc 0) = Inl RangeError"
  by (simp add: decode_eval TTS_AUDIO_SAMPLE_RATE_def)

lemma scripted_playback:
  "run_events least_context
     [Play ''AQACAA=='' 0, Play ''AID/fwAA'' 0, Ended 0, Play ''QQ=='' 0] initial_playback =
     \<lparr>nextStartTime = 5 / 24000,
      audioSources =
        [\<lparr>node_id = 1,
          node_buffer = \<lparr>sampleRate = 24000, channelData = [[- 1, 32767 / 32768, 0]]\<rparr>,
          start_time = 2 / 24000\<rparr>],
      device_schedule =
        [\<lparr>node_id = 0,
          node_buffer = \<lparr>sampleRate = 24000, channelData = [[1 / 32768, 2 / 32768]]\<rparr>,
          start_time = 0\<rparr>,
         \<lparr>node_id = 1,
          node_buffer = \<lparr>sampleRate = 24000, channelData = [[- 1, 32767 / 32768, 0]]\<rparr>,
          start_time = 2 / 24000\<rparr>]\<rparr>"
  by (simp add: playAudio_def Let_def decode_two_samples decode_three_samples decode_one_byte
      two_frames three_frames odd_byte_count initial_playback_def on_ended_def
      duration_def buffer_length_def)

lemma scripted_clock:
  "clock_never_ahead least_context
     [Play ''AQACAA=='' 0, Play ''AID/fwAA'' 0, Ended 0, Play ''QQ=='' 0] initial_playback"
  by (simp add: playAudio_def Let_def decode_two_samples decode_three_samples decode_one_byte
      two_frames three_frames odd_byte_count initial_playback_def on_ended_def
      duration_def buffer_length_def)


section \<open>Verification of the sample codec and of the WAV serialisation\<close>

subsection \<open>Bytes of 16-bit and 32-bit words\<close>

lemma ucast_low_byte: "(ucast (word_of_int i :: 16 word) :: 8 word) = word_of_int (i mod 256)"
proof -
  have "i mod 256 = take_bit 8 i" by (simp add: take_bit_eq_mod)
  then show ?thesis
    by (intro bit_word_eqI) (auto simp: bit_simps)
qed

lemma ucast_high_byte:
  "(ucast (drop_bit 8 (word_of_int i :: 16 word)) :: 8 word) = word_of_int ((i div 256) mod 256)"
proof -
  have "(i div 256) mod 256 = take_bit 8 (drop_bit 8 i)"
    by (simp add: take_bit_eq_mod drop_bit_eq_div)
  then show ?thesis
    by (intro bit_word_eqI) (auto simp: bit_simps)
qed

lemma int16_bytes_of_int: "int16_bytes (word_of_int i) = le16_bytes i"
  by (simp add: int16_bytes_def le16_bytes_def ucast_low_byte ucast_high_byte)

lemma sint16_word_of_int: "- 32768 \<le> i \<Longrightarrow> i < 32768 \<Longrightarrow> sint (word_of_int i :: 16 word) = i"
  by (simp add: signed_of_int signed_take_bit_int_eq_self)

lemma byte_of_word:
  fixes w :: "'a::len word"
  shows "unat (ucast (drop_bit n w) :: 8 word) = unat w div 2 ^ n mod 256"
proof -
  have "unat (ucast (drop_bit n w) :: 8 word) = take_bit 8 (drop_bit n (unat w))"
    by (simp only: unsigned_ucast_eq unat_drop_bit_eq) simp
  then show ?thesis by (simp add: take_bit_eq_mod drop_bit_eq_div)
qed

lemma le32_value:
  "unat (ucast (w::32 word) :: 8 word) + 256 * unat (ucast (drop_bit 8 w) :: 8 word) +
   65536 * unat (ucast (drop_bit 16 w) :: 8 word) + 16777216 * unat (ucast (drop_bit 24 w) :: 8 word)
   = unat w"
proof -
  define x where "x = unat w"
  have lt: "x < 4294967296" using unsigned_less[of w, where ?'a = nat] by (simp add: x_def)
  have d2: "x div 65536 = x div 256 div 256" and d3: "x div 16777216 = x div 65536 div 256"
    by (simp_all add: div_mult2_eq)
  have s1: "x = x mod 256 + 256 * (x div 256)" by simp
  have s2: "x div 256 = x div 256 mod 256 + 256 * (x div 65536)" unfolding d2 by simp
  have s3: "x div 65536 = x div 65536 mod 256 + 256 * (x div 16777216)" unfolding d3 by simp
  have top: "x div 16777216 mod 256 = x div 16777216" using lt by simp
  have b0: "unat (ucast w :: 8 word) = x mod 256"
    using byte_of_word[of 0 w] by (simp add: x_def)
  have b1: "unat (ucast (drop_bit 8 w) :: 8 word) = x div 256 mod 256"
    using byte_of_word[of 8 w] by (simp add: x_def)
  have b2: "unat (ucast (drop_bit 16 w) :: 8 word) = x div 65536 mod 256"
    using byte_of_word[of 16 w] by (simp add: x_def)
  have b3: "unat (ucast (drop_bit 24 w) :: 8 word) = x div 16777216 mod 256"
    using byte_of_word[of 24 w] by (simp add: x_def)
  show ?thesis
    unfolding b0 b1 b2 b3 top x_def[symmetric] using s1 s2 s3 by linarith
qed

lemma le16_value:
  "unat (ucast (w::16 word) :: 8 word) + 256 * unat (ucast (drop_bit 8 w) :: 8 word) = unat w"
proof -
  define x where "x = unat w"
  have lt: "x < 65536" using unsigned_less[of w, where ?'a = nat] by (simp add: x_def)
  have top: "x div 256 mod 256 = x div 256" using lt by simp
  have b0: "unat (ucast w :: 8 word) = x mod 256"
    using byte_of_word[of 0 w] by (simp add: x_def)
  have b1: "unat (ucast (drop_bit 8 w) :: 8 word) = x div 256 mod 256"
    using byte_of_word[of 8 w] by (simp add: x_def)
  show ?thesis
    unfolding b0 b1 top x_def[symmetric] by simp
qed

lemma int16_roundtrip:
  "word_of_nat (unat (ucast w :: 8 word) + 256 * unat (ucast (drop_bit 8 w) :: 8 word)) = (w :: 16 word)"
  by (simp only: le16_value of_nat_unat) simp

subsection \<open>decodeAudioData\<close>

lemma sint_le_int16:
  "sint (word_of_nat (unat lo + 256 * unat hi) :: 16 word) = le_int16 lo hi"
proof -
  define u where "u = int (unat lo) + 256 * int (unat hi)"
  have lo: "unat lo < 256" and hi: "unat hi < 256"
    using unsigned_less[of lo, where ?'a = nat] unsigned_less[of hi, where ?'a = nat] by simp_all
  then have "int (unat lo) < 256" "int (unat hi) < 256" by linarith+
  then have range: "0 \<le> u" "u < 65536" unfolding u_def by linarith+
  have gen: "sint (word_of_nat n :: 16 word) = signed_take_bit 15 (int n)" for n
    using signed_of_nat[of n, where ?'b = 16 and ?'a = int] by simp
  have "sint (word_of_nat (unat lo + 256 * unat hi) :: 16 word) = signed_take_bit 15 u"
    unfolding gen u_def by simp
  also have "\<dots> = take_bit 16 (u + 32768) - 32768"
    by (simp add: signed_take_bit_eq_take_bit_shift)
  also have "\<dots> = (if u < 32768 then u else u - 65536)"
  proof (cases "u < 32768")
    case True
    with range have "(u + 32768) mod 65536 = u + 32768" by simp
    with True show ?thesis by (simp add: take_bit_eq_mod)
  next
    case False
    with range have "(u + 32768) mod 65536 = u + 32768 - 65536"
      by (simp add: mod_pos_geq)
    with False show ?thesis by (simp add: take_bit_eq_mod)
  qed
  finally show ?thesis by (simp add: le_int16_def u_def Let_def)
qed

lemma length_int16_elements: "length (int16_elements bs) = length bs div 2"
  by (induction bs rule: int16_elements.induct) simp_all

lemma nth_int16_elements:
  "k < length bs div 2 \<Longrightarrow>
   int16_elements bs ! k = word_of_nat (unat (bs ! (2 * k)) + 256 * unat (bs ! (2 * k + 1)))"
proof (induction bs arbitrary: k rule: int16_elements.induct)
  case (1 lo hi rest)
  then show ?case by (cases k) simp_all
qed simp_all

lemma length_decode_frames:
  "length (decode_frames D ch fc c i cd) = length cd"
proof (induction D ch fc c i cd rule: decode_frames.induct)
  case (1 D ch fc c i cd)
  show ?case
  proof (cases "real i < fc")
    case True
    then show ?thesis
      using "1.IH"[OF True]
      by (subst decode_frames.simps) (simp add: store_at_def split: option.splits)
  next
    case False
    then show ?thesis by (subst decode_frames.simps) simp
  qed
qed

lemma nth_decode_frames:
  "j < length cd \<Longrightarrow>
   decode_frames D ch fc c i cd ! j =
     (if i \<le> j \<and> real j < fc
      then (case element_at D (j * ch + c) of
              Some w \<Rightarrow> real_of_int (sint w) / 32768
            | None \<Rightarrow> cd ! j)
      else cd ! j)"
proof (induction D ch fc c i cd rule: decode_frames.induct)
  case (1 D ch fc c i cd)
  show ?case
  proof (cases "real i < fc")
    case False
    then have "\<not> (i \<le> j \<and> real j < fc)" by auto
    with False show ?thesis by (subst decode_frames.simps) simp
  next
    case True
    define cd' where "cd' = (case element_at D (i * ch + c) of
                Some w \<Rightarrow> store_at cd i (real_of_int (sint w) / 32768)
              | None \<Rightarrow> cd)"
    have len: "length cd' = length cd"
      by (simp add: cd'_def store_at_def split: option.splits)
    have unfold: "decode_frames D ch fc c i cd = decode_frames D ch fc c (Suc i) cd'"
      using True by (subst decode_frames.simps) (simp add: cd'_def)
    have other: "cd' ! j = cd ! j" if "j \<noteq> i"
      using that by (simp add: cd'_def store_at_def split: option.splits)
    have here: "cd' ! i = (case element_at D (i * ch + c) of
              Some w \<Rightarrow> real_of_int (sint w) / 32768 | None \<Rightarrow> cd ! i)" if "i < length cd"
      using that by (simp add: cd'_def store_at_def split: option.splits)
    have IH': "j < length cd' \<Longrightarrow> decode_frames D ch fc c (Suc i) cd' ! j =
     (if Suc i \<le> j \<and> real j < fc
      then (case element_at D (j * ch + c) of
              Some w \<Rightarrow> real_of_int (sint w) / 32768
            | None \<Rightarrow> cd' ! j)
      else cd' ! j)"
      using "1.IH"[OF True] unfolding cd'_def .
    have ih: "decode_frames D ch fc c (Suc i) cd' ! j =
     (if Suc i \<le> j \<and> real j < fc
      then (case element_at D (j * ch + c) of
              Some w \<Rightarrow> real_of_int (sint w) / 32768
            | None \<Rightarrow> cd' ! j)
      else cd' ! j)"
      by (rule IH') (simp add: len "1.prems")
    show ?thesis
    proof (cases "j = i")
      case True
      with ih here "1.prems" \<open>real i < fc\<close> show ?thesis
        unfolding unfold by (auto split: option.splits)
    next
      case False
      with ih other show ?thesis unfolding unfold by (auto split: option.splits)
    qed
  qed
qed

text \<open>a read that is out of range belongs to a store that is out of range\<close>

lemma decode_frames_reads_in_range:
  assumes "length cd \<le> length D div ch" "c < ch" "i < length cd"
  shows "element_at D (i * ch + c) = Some (D ! (i * ch + c))"
proof -
  have "Suc i * ch \<le> (length D div ch) * ch" using assms by (intro mult_le_mono1) simp
  also have "\<dots> \<le> length D" by simp
  finally have "i * ch + c < length D" using assms(2) by simp
  then show ?thesis by (simp add: element_at_def)
qed

lemma decode_channels_result:
  "ch \<le> length (channelData b) \<Longrightarrow>
   decode_channels D ch fc c b =
     Inr (b\<lparr>channelData :=
            map (\<lambda>k. if c \<le> k \<and> k < ch
                      then decode_frames D ch fc k 0 (channelData b ! k)
                      else channelData b ! k) [0..<length (channelData b)]\<rparr>)"
proof (induction D ch fc c b rule: decode_channels.induct)
  case (1 D ch fc c b)
  show ?case
  proof (cases "c < ch")
    case False
    then have "map (\<lambda>k. if c \<le> k \<and> k < ch
                      then decode_frames D ch fc k 0 (channelData b ! k)
                      else channelData b ! k) [0..<length (channelData b)] = channelData b"
      by (intro nth_equalityI) auto
    with False show ?thesis by (subst decode_channels.simps) simp
  next
    case True
    with "1.prems" have get: "getChannelData b c = Inr (channelData b ! c)"
      by (simp add: getChannelData_def)
    define b' where "b' = b\<lparr>channelData := (channelData b)
                     [c := decode_frames D ch fc c 0 (channelData b ! c)]\<rparr>"
    have unfold: "decode_channels D ch fc c b = decode_channels D ch fc (Suc c) b'"
      using True get by (subst decode_channels.simps) (simp add: b'_def)
    have len: "length (channelData b') = length (channelData b)" by (simp add: b'_def)
    from "1.IH"[OF True get] "1.prems" len
    have ih: "decode_channels D ch fc (Suc c) b' =
     Inr (b'\<lparr>channelData :=
            map (\<lambda>k. if Suc c \<le> k \<and> k < ch
                      then decode_frames D ch fc k 0 (channelData b' ! k)
                      else channelData b' ! k) [0..<length (channelData b')]\<rparr>)"
      by (simp add: b'_def)
    have "map (\<lambda>k. if Suc c \<le> k \<and> k < ch
                      then decode_frames D ch fc k 0 (channelData b' ! k)
                      else channelData b' ! k) [0..<length (channelData b')] =
          map (\<lambda>k. if c \<le> k \<and> k < ch
                      then decode_frames D ch fc k 0 (channelData b ! k)
                      else channelData b ! k) [0..<length (channelData b)]"
      unfolding len
    proof (rule map_cong[OF refl])
      fix k assume "k \<in> set [0..<length (channelData b)]"
      then have k: "k < length (channelData b)" by simp
      show "(if Suc c \<le> k \<and> k < ch
                      then decode_frames D ch fc k 0 (channelData b' ! k)
                      else channelData b' ! k) =
            (if c \<le> k \<and> k < ch
                      then decode_frames D ch fc k 0 (channelData b ! k)
                      else channelData b ! k)"
      proof (cases "k = c")
        case True
        with k \<open>c < ch\<close> show ?thesis by (simp add: b'_def)
      next
        case False
        then show ?thesis by (auto simp: b'_def)
      qed
    qed
    with ih show ?thesis unfolding unfold by (simp add: b'_def)
  qed
qed

lemma decodeAudioData_even:
  assumes "even (length data)" "0 < numChannels" "0 < sampleRate'"
    and "0 < length data div (2 * numChannels)" "length data div (2 * numChannels) < 2 ^ 32"
    and "numChannels \<le> maxChannels ctx"
    and "minSampleRate ctx \<le> sampleRate'" "sampleRate' \<le> maxSampleRate ctx"
  shows "\<exists>buffer. decodeAudioData data ctx sampleRate' numChannels = Inr buffer \<and>
     sampleRate buffer = sampleRate' \<and> length (channelData buffer) = numChannels \<and>
     (\<forall>channel<numChannels.
        length (channelData buffer ! channel) = length data div (2 * numChannels) \<and>
        (\<forall>i<length data div (2 * numChannels).
           channelData buffer ! channel ! i =
             real_of_int (le_int16 (data ! (2 * (i * numChannels + channel)))
                                   (data ! (2 * (i * numChannels + channel) + 1))) / 32768))"
proof -
  define D where "D = int16_elements data"
  define frames where "frames = length data div (2 * numChannels)"
  define fc where "fc = real (length D) / real numChannels"
  have lenD: "length D = length data div 2" by (simp add: D_def length_int16_elements)
  have frames: "frames = length D div numChannels"
    by (simp add: frames_def lenD div_mult2_eq)
  have floor: "nat \<lfloor>fc\<rfloor> = frames"
    by (simp add: fc_def frames floor_divide_of_nat_eq)
  have create: "createBuffer ctx numChannels fc sampleRate' =
      Inr \<lparr>sampleRate = sampleRate', channelData = replicate numChannels (replicate frames 0)\<rparr>"
    using assms floor by (simp add: createBuffer_def frames_def)
  define b0 where "b0 = \<lparr>sampleRate = sampleRate',
      channelData = replicate numChannels (replicate frames (0::real))\<rparr>"
  define buffer where "buffer = b0\<lparr>channelData :=
            map (\<lambda>k. if 0 \<le> k \<and> k < numChannels
                      then decode_frames D numChannels fc k 0 (channelData b0 ! k)
                      else channelData b0 ! k) [0..<length (channelData b0)]\<rparr>"
  have "numChannels \<le> length (channelData b0)" by (simp add: b0_def)
  then have "decode_channels D numChannels fc 0 b0 = Inr buffer"
    unfolding buffer_def by (rule decode_channels_result)
  then have res: "decodeAudioData data ctx sampleRate' numChannels = Inr buffer"
    using assms(1) create
    by (simp add: decodeAudioData_def new_Int16Array_def D_def[symmetric] fc_def[symmetric]
        Let_def b0_def[symmetric])
  have chan: "channelData buffer ! c = decode_frames D numChannels fc c 0 (replicate frames 0)"
    if "c < numChannels" for c
    using that by (simp add: buffer_def b0_def)
  have sample: "channelData buffer ! c ! i =
      real_of_int (le_int16 (data ! (2 * (i * numChannels + c)))
                            (data ! (2 * (i * numChannels + c) + 1))) / 32768"
    if c: "c < numChannels" and i: "i < frames" for c i
  proof -
    have "real (Suc i) \<le> real frames" using i by simp
    also have "real frames \<le> fc"
      unfolding floor[symmetric]
      by (metis divide_nonneg_nonneg fc_def of_nat_0_le_iff of_nat_floor)
    finally have lt: "real i < fc" by simp
    have rd: "element_at D (i * numChannels + c) = Some (D ! (i * numChannels + c))"
      using decode_frames_reads_in_range[of "replicate frames (0::real)" D numChannels c i] c i
      by (simp add: frames)
    then have idx: "i * numChannels + c < length data div 2"
      by (simp add: element_at_def lenD split: if_splits)
    have "channelData buffer ! c ! i =
        real_of_int (sint (D ! (i * numChannels + c))) / 32768"
      using nth_decode_frames[of i "replicate frames 0" D numChannels fc c 0] i lt rd
      by (simp add: chan[OF c])
    also have "D ! (i * numChannels + c) =
        word_of_nat (unat (data ! (2 * (i * numChannels + c))) +
                     256 * unat (data ! (2 * (i * numChannels + c) + 1)))"
      unfolding D_def by (rule nth_int16_elements[OF idx])
    finally show ?thesis by (simp only: sint_le_int16)
  qed
  have "sampleRate buffer = sampleRate'" "length (channelData buffer) = numChannels"
    by (simp_all add: buffer_def b0_def)
  moreover have "\<forall>channel<numChannels.
        length (channelData buffer ! channel) = frames \<and>
        (\<forall>i<frames. channelData buffer ! channel ! i =
             real_of_int (le_int16 (data ! (2 * (i * numChannels + channel)))
                                   (data ! (2 * (i * numChannels + channel) + 1))) / 32768)"
    using sample by (simp add: chan length_decode_frames)
  ultimately show ?thesis using res unfolding frames_def by blast
qed

lemma decodeAudioData_odd:
  "odd (length data) \<Longrightarrow> decodeAudioData data ctx sampleRate' numChannels = Inl RangeError"
  by (simp add: decodeAudioData_def new_Int16Array_def)

lemma decodeAudioData_pcm_buffer:
  assumes "even (length data)" "0 < numChannels" "0 < sampleRate'"
    and "0 < length data div (2 * numChannels)" "length data div (2 * numChannels) < 2 ^ 32"
    and "numChannels \<le> maxChannels ctx"
    and "minSampleRate ctx \<le> sampleRate'" "sampleRate' \<le> maxSampleRate ctx"
  shows "decodeAudioData data ctx sampleRate' numChannels =
    Inr (pcm_buffer data sampleRate' numChannels)"
proof -
  from decodeAudioData_even[OF assms] obtain buffer where b:
    "decodeAudioData data ctx sampleRate' numChannels = Inr buffer"
    "sampleRate buffer = sampleRate'" "length (channelData buffer) = numChannels"
    "\<forall>channel<numChannels.
        length (channelData buffer ! channel) = length data div (2 * numChannels) \<and>
        (\<forall>i<length data div (2 * numChannels).
           channelData buffer ! channel ! i =
             real_of_int (le_int16 (data ! (2 * (i * numChannels + channel)))
                                   (data ! (2 * (i * numChannels + channel) + 1))) / 32768)"
    by (elim exE conjE)
  have "channelData buffer = channelData (pcm_buffer data sampleRate' numChannels)"
  proof (rule nth_equalityI)
    show "length (channelData buffer) = length (channelData (pcm_buffer data sampleRate' numChannels))"
      using b(3) by (simp add: pcm_buffer_def)
  next
    fix c assume "c < length (channelData buffer)"
    then have c: "c < numChannels" using b(3) by simp
    show "channelData buffer ! c = channelData (pcm_buffer data sampleRate' numChannels) ! c"
    proof (rule nth_equalityI)
      show "length (channelData buffer ! c) =
          length (channelData (pcm_buffer data sampleRate' numChannels) ! c)"
        using b(4) c by (simp add: pcm_buffer_def)
    next
      fix i assume "i < length (channelData buffer ! c)"
      then have "i < length data div (2 * numChannels)" using b(4) c by simp
      then show "channelData buffer ! c ! i =
          channelData (pcm_buffer data sampleRate' numChannels) ! c ! i"
        using b(4) c by (simp add: pcm_buffer_def)
    qed
  qed
  then have "buffer = pcm_buffer data sampleRate' numChannels"
    using b(2) by (cases buffer) (simp add: pcm_buffer_def)
  with b(1) show ?thesis by simp
qed

subsection \<open>Truncation, clamping and floatTo16BitPCM\<close>

lemma js_trunc_bounds:
  "\<bar>real_of_int (js_trunc y) - y\<bar> < 1"
  by (simp add: js_trunc_def) linarith

lemma js_trunc_mono:
  assumes "a \<le> b"
  shows "js_trunc a \<le> js_trunc b"
proof (cases "a < 0")
  case a: True
  show ?thesis
  proof (cases "b < 0")
    case True
    with a assms show ?thesis by (simp add: js_trunc_def ceiling_mono)
  next
    case False
    have "\<lceil>a\<rceil> \<le> 0" using a by (simp add: ceiling_le_iff)
    moreover have "0 \<le> \<lfloor>b\<rfloor>" using False by simp
    moreover have "js_trunc a = \<lceil>a\<rceil>" "js_trunc b = \<lfloor>b\<rfloor>"
      using a False by (simp_all add: js_trunc_def)
    ultimately show ?thesis by linarith
  qed
next
  case False
  with assms show ?thesis by (simp add: js_trunc_def floor_mono)
qed

lemma js_trunc_of_int: "js_trunc (of_int k) = k"
  by (simp add: js_trunc_def)

lemma js_trunc_numeral [simp]:
  "js_trunc 0 = 0" "js_trunc (numeral n) = numeral n" "js_trunc (- numeral n) = - numeral n"
  by (simp_all add: js_trunc_def)

lemma clamp_sample_max_min: "max (-1) (min 1 x) = clamp_sample x"
  by (simp add: clamp_sample_def max_def min_def)



lemma update_two_bytes:
  "off + 2 \<le> length xs \<Longrightarrow>
   xs[off := a, off + 1 := b] = take off xs @ [a, b] @ drop (off + 2) xs"
proof (induction xs arbitrary: off)
  case Nil
  then show ?case by simp
next
  case (Cons x xs)
  show ?case
  proof (cases off)
    case 0
    with Cons.prems show ?thesis by (cases xs) simp_all
  next
    case (Suc n)
    with Cons.prems Cons.IH[of n] show ?thesis by simp
  qed
qed

lemma setInt16_bytes:
  assumes "off + 2 \<le> length output"
  shows "setInt16 output off v =
           Inr (take off output @ le16_bytes (js_trunc v) @ drop (off + 2) output)"
proof -
  have "[ucast (ToInt16 v), ucast (drop_bit 8 (ToInt16 v))] = le16_bytes (js_trunc v)"
    using int16_bytes_of_int[of "js_trunc v"] by (simp add: ToInt16_def int16_bytes_def)
  then show ?thesis
    using assms update_two_bytes[OF assms, of "ucast (ToInt16 v)" "ucast (drop_bit 8 (ToInt16 v))"]
    by (simp add: setInt16_def Let_def)
qed

lemma length_le16_bytes [simp]: "length (le16_bytes i) = 2"
  by (simp add: le16_bytes_def)

lemma floatTo16BitPCM_bytes:
  "off + 2 * length input \<le> length output \<Longrightarrow>
   floatTo16BitPCM output off input =
     Inr (take off output @ concat (map (\<lambda>x. le16_bytes (spec_pcm16 x)) input) @
          drop (off + 2 * length input) output)"
proof (induction input arbitrary: "output" off)
  case Nil
  then show ?case by simp
next
  case (Cons x input)
  define out' where "out' = take off output @ le16_bytes (spec_pcm16 x) @ drop (off + 2) output"
  have fits: "off + 2 \<le> length output" using Cons.prems by simp
  have val: "js_trunc (if clamp_sample x < 0 then clamp_sample x * 32768
                         else clamp_sample x * 32767) = spec_pcm16 x"
    by (simp add: spec_pcm16_def)
  have set: "setInt16 output off (if clamp_sample x < 0 then clamp_sample x * 32768
                         else clamp_sample x * 32767) = Inr out'"
    unfolding out'_def val[symmetric] by (rule setInt16_bytes[OF fits])
  have len: "length out' = length output" using fits by (simp add: out'_def)
  have tk: "take (off + 2) out' = take off output @ le16_bytes (spec_pcm16 x)"
    using fits by (simp add: out'_def)
  have dr: "drop (off + 2 + 2 * length input) out' = drop (off + 2 + 2 * length input) output"
    using fits by (simp add: out'_def add.commute)
  have "floatTo16BitPCM output off (x # input) = floatTo16BitPCM out' (off + 2) input"
    using set by (simp add: clamp_sample_max_min and_then_def Let_def)
  also have "\<dots> = Inr (take (off + 2) out' @ concat (map (\<lambda>x. le16_bytes (spec_pcm16 x)) input) @
          drop (off + 2 + 2 * length input) out')"
    using Cons.prems len by (intro Cons.IH) simp
  finally show ?case unfolding tk dr by (simp add: add.assoc)
qed


lemma capture_sample_range:
  assumes "-1 \<le> x" "x < 1"
  shows "- 32768 \<le> js_trunc (x * 32768)" "js_trunc (x * 32768) < 32768"
proof -
  have "js_trunc (- 32768) \<le> js_trunc (x * 32768)"
    using assms by (intro js_trunc_mono) simp
  then show "- 32768 \<le> js_trunc (x * 32768)" by simp
  have "x * 32768 < 32768" using assms by simp
  then show "js_trunc (x * 32768) < 32768"
    by (simp add: js_trunc_def)
qed

lemma sint_pcm_int16:
  assumes "-1 \<le> x" "x < 1"
  shows "sint (ToInt16 (x * 32768)) = js_trunc (x * 32768)"
  unfolding ToInt16_def using capture_sample_range[OF assms] by (intro sint16_word_of_int) simp_all

lemma capture_roundtrip_error:
  assumes "-1 \<le> x" "x < 1"
  shows "\<bar>real_of_int (sint (ToInt16 (x * 32768))) / 32768 - x\<bar> < 1 / 32768"
proof -
  define e where "e = real_of_int (js_trunc (x * 32768)) - x * 32768"
  have "\<bar>e\<bar> < 1" unfolding e_def by (rule js_trunc_bounds)
  then have small: "\<bar>e / 32768\<bar> < 1 / 32768" by simp
  have "real_of_int (sint (ToInt16 (x * 32768))) / 32768 - x = e / 32768"
    unfolding sint_pcm_int16[OF assms] by (simp add: e_def diff_divide_distrib)
  then show ?thesis using small by (simp only:)
qed

subsection \<open>The header written by encodeWAV\<close>

lemma ucast_byte_of_nat:
  "k \<in> {0, 8, 16, 24} \<Longrightarrow>
   (ucast (drop_bit k (word_of_nat v :: 32 word)) :: 8 word) = word_of_nat (v div 2 ^ k mod 256)"
proof -
  assume k: "k \<in> {0, 8, 16, 24}"
  have "v div 2 ^ k mod 256 = take_bit 8 (drop_bit k v)"
    by (simp add: take_bit_eq_mod drop_bit_eq_div)
  then show ?thesis
    using k by (intro bit_word_eqI) (auto simp: bit_simps)
qed

lemma ucast_byte_of_nat16:
  "k \<in> {0, 8} \<Longrightarrow>
   (ucast (drop_bit k (word_of_nat v :: 16 word)) :: 8 word) = word_of_nat (v div 2 ^ k mod 256)"
proof -
  assume k: "k \<in> {0, 8}"
  have "v div 2 ^ k mod 256 = take_bit 8 (drop_bit k v)"
    by (simp add: take_bit_eq_mod drop_bit_eq_div)
  then show ?thesis
    using k by (intro bit_word_eqI) (auto simp: bit_simps)
qed

lemma update_four_bytes:
  "length P = off \<Longrightarrow> 4 \<le> length R \<Longrightarrow>
   (P @ R)[off := a, off + 1 := b, off + 2 := c, off + 3 := d] = (P @ [a, b, c, d]) @ drop 4 R"
  by (cases R; cases "tl R"; cases "tl (tl R)"; cases "tl (tl (tl R))")
     (simp_all add: list_update_append)

lemma update_two_bytes_append:
  "length P = off \<Longrightarrow> 2 \<le> length R \<Longrightarrow>
   (P @ R)[off := a, off + 1 := b] = (P @ [a, b]) @ drop 2 R"
  by (cases R; cases "tl R") (simp_all add: list_update_append)

lemma setUint32_append:
  "length P = off \<Longrightarrow> 4 \<le> length R \<Longrightarrow>
   setUint32 (P @ R) off v = Inr ((P @ u32le v) @ drop 4 R)"
  using ucast_byte_of_nat[of 0 v] ucast_byte_of_nat[of 8 v] ucast_byte_of_nat[of 16 v]
    ucast_byte_of_nat[of 24 v] update_four_bytes[of P off R]
  by (simp add: setUint32_def u32le_def Let_def)

lemma setUint16_append:
  "length P = off \<Longrightarrow> 2 \<le> length R \<Longrightarrow>
   setUint16 (P @ R) off v = Inr ((P @ u16le v) @ drop 2 R)"
  using ucast_byte_of_nat16[of 0 v] ucast_byte_of_nat16[of 8 v] update_two_bytes_append[of P off R]
  by (simp add: setUint16_def u16le_def Let_def)

lemma writeString_append:
  "length P = off \<Longrightarrow> length s \<le> length R \<Longrightarrow>
   writeString (P @ R) off s = Inr ((P @ ascii s) @ drop (length s) R)"
proof (induction s arbitrary: P off R)
  case Nil
  then show ?case by (simp add: ascii_def)
next
  case (Cons c cs)
  then obtain r R' where R: "R = r # R'" by (cases R) auto
  from Cons.prems(1) have off: "off = length P" by simp
  have "setUint8 (P @ R) off (of_char c) = Inr ((P @ [word_of_nat (of_char c)]) @ R')"
    unfolding off R by (simp add: setUint8_def)
  moreover have "writeString ((P @ [word_of_nat (of_char c)]) @ R') (off + 1) cs =
      Inr (((P @ [word_of_nat (of_char c)]) @ ascii cs) @ drop (length cs) R')"
    using Cons.prems R by (intro Cons.IH) simp_all
  ultimately show ?case using R by (simp add: and_then_def ascii_def)
qed

lemma length_fields [simp]:
  "length (u32le v) = 4" "length (u16le v) = 2" "length (ascii s) = length s"
  by (simp_all add: u32le_def u16le_def ascii_def)

lemma length_wav_header [simp]: "length (wav_header c r d) = 44"
  by (simp add: wav_header_def)

lemma header_written:
  fixes d :: nat
  shows "and_then (writeString (replicate (44 + d) (0 :: byte)) 0 ''RIFF'') (\<lambda>view.
            and_then (setUint32 view 4 (36 + dataLength)) (\<lambda>view.
            and_then (writeString view 8 ''WAVE'') (\<lambda>view.
            and_then (writeString view 12 ''fmt '') (\<lambda>view.
            and_then (setUint32 view 16 16) (\<lambda>view.
            and_then (setUint16 view 20 1) (\<lambda>view.
            and_then (setUint16 view 22 numChannels) (\<lambda>view.
            and_then (setUint32 view 24 sampleRate') (\<lambda>view.
            and_then (setUint32 view 28 (sampleRate' * numChannels * 2)) (\<lambda>view.
            and_then (setUint16 view 32 (numChannels * 2)) (\<lambda>view.
            and_then (setUint16 view 34 16) (\<lambda>view.
            and_then (writeString view 36 ''data'') (\<lambda>view.
            and_then (setUint32 view 40 dataLength) f))))))))))))
         = f (wav_header numChannels sampleRate' dataLength @ replicate d 0)"
proof -
  define P1 where "P1 = ascii ''RIFF''"
  define P2 where "P2 = P1 @ u32le (36 + dataLength)"
  define P3 where "P3 = P2 @ ascii ''WAVE''"
  define P4 where "P4 = P3 @ ascii ''fmt ''"
  define P5 where "P5 = P4 @ u32le 16"
  define P6 where "P6 = P5 @ u16le 1"
  define P7 where "P7 = P6 @ u16le numChannels"
  define P8 where "P8 = P7 @ u32le sampleRate'"
  define P9 where "P9 = P8 @ u32le (sampleRate' * numChannels * 2)"
  define P10 where "P10 = P9 @ u16le (numChannels * 2)"
  define P11 where "P11 = P10 @ u16le 16"
  define P12 where "P12 = P11 @ ascii ''data''"
  define P13 where "P13 = P12 @ u32le dataLength"
  have l: "length P1 = 4" "length P2 = 8" "length P3 = 12" "length P4 = 16" "length P5 = 20"
    "length P6 = 22" "length P7 = 24" "length P8 = 28" "length P9 = 32" "length P10 = 34"
    "length P11 = 36" "length P12 = 40"
    by (simp_all add: P1_def P2_def P3_def P4_def P5_def P6_def P7_def P8_def P9_def P10_def
        P11_def P12_def)
  have s1: "writeString (replicate (44 + d) 0) 0 ''RIFF'' = Inr (P1 @ replicate (40 + d) 0)"
    using writeString_append[of "[]" 0 "''RIFF''" "replicate (44 + d) 0"] by (simp add: P1_def)
  have s2: "setUint32 (P1 @ replicate (40 + d) 0) 4 v = Inr ((P1 @ u32le v) @ replicate (36 + d) 0)" for v
    using setUint32_append[of P1 4 "replicate (40 + d) 0" v] l by simp
  have s3: "writeString (P2 @ replicate (36 + d) 0) 8 ''WAVE'' = Inr (P3 @ replicate (32 + d) 0)"
    using writeString_append[of P2 8 "''WAVE''" "replicate (36 + d) 0"] l by (simp add: P3_def)
  have s4: "writeString (P3 @ replicate (32 + d) 0) 12 ''fmt '' = Inr (P4 @ replicate (28 + d) 0)"
    using writeString_append[of P3 12 "''fmt ''" "replicate (32 + d) 0"] l by (simp add: P4_def)
  have s5: "setUint32 (P4 @ replicate (28 + d) 0) 16 16 = Inr (P5 @ replicate (24 + d) 0)"
    using setUint32_append[of P4 16 "replicate (28 + d) 0" 16] l by (simp add: P5_def)
  have s6: "setUint16 (P5 @ replicate (24 + d) 0) 20 1 = Inr (P6 @ replicate (22 + d) 0)"
    using setUint16_append[of P5 20 "replicate (24 + d) 0" 1] l by (simp add: P6_def)
  have s7: "setUint16 (P6 @ replicate (22 + d) 0) 22 numChannels = Inr (P7 @ replicate (20 + d) 0)"
    using setUint16_append[of P6 22 "replicate (22 + d) 0" numChannels] l by (simp add: P7_def)
  have s8: "setUint32 (P7 @ replicate (20 + d) 0) 24 sampleRate' = Inr (P8 @ replicate (16 + d) 0)"
    using setUint32_append[of P7 24 "replicate (20 + d) 0" sampleRate'] l by (simp add: P8_def)
  have s9: "setUint32 (P8 @ replicate (16 + d) 0) 28 (sampleRate' * numChannels * 2) =
      Inr (P9 @ replicate (12 + d) 0)"
    using setUint32_append[of P8 28 "replicate (16 + d) 0" "sampleRate' * numChannels * 2"] l
    by (simp add: P9_def)
  have s10: "setUint16 (P9 @ replicate (12 + d) 0) 32 (numChannels * 2) =
      Inr (P10 @ replicate (10 + d) 0)"
    using setUint16_append[of P9 32 "replicate (12 + d) 0" "numChannels * 2"] l
    by (simp add: P10_def)
  have s11: "setUint16 (P10 @ replicate (10 + d) 0) 34 16 = Inr (P11 @ replicate (8 + d) 0)"
    using setUint16_append[of P10 34 "replicate (10 + d) 0" 16] l by (simp add: P11_def)
  have s12: "writeString (P11 @ replicate (8 + d) 0) 36 ''data'' = Inr (P12 @ replicate (4 + d) 0)"
    using writeString_append[of P11 36 "''data''" "replicate (8 + d) 0"] l by (simp add: P12_def)
  have s13: "setUint32 (P12 @ replicate (4 + d) 0) 40 dataLength = Inr (P13 @ replicate d 0)"
    using setUint32_append[of P12 40 "replicate (4 + d) 0" dataLength] l by (simp add: P13_def)
  have hdr: "P13 = wav_header numChannels sampleRate' dataLength"
    by (simp add: wav_header_def P1_def P2_def P3_def P4_def P5_def P6_def P7_def P8_def P9_def
        P10_def P11_def P12_def P13_def)
  show ?thesis
    unfolding and_then_def s1 sum.case s2 P2_def[symmetric] s3 s4 s5 s6 s7 s8 s9 s10 s11 s12 s13 hdr
    by (rule refl)
qed

lemma encodeWAV_bytes:
  assumes "channelData b = samples # others"
  shows "encodeWAV b =
    Inr \<lparr>blob_bytes = wav_header (numberOfChannels b) (sampleRate b) (2 * length samples) @
                       concat (map (\<lambda>x. le16_bytes (spec_pcm16 x)) samples),
         blob_type = ''audio/wav''\<rparr>"
proof -
  have get: "getChannelData b 0 = Inr samples" using assms by (simp add: getChannelData_def)
  have pcm: "floatTo16BitPCM
      (wav_header (numberOfChannels b) (sampleRate b) (length samples * 2) @
         replicate (length samples * 2) 0) 44 samples =
      Inr (wav_header (numberOfChannels b) (sampleRate b) (length samples * 2) @
           concat (map (\<lambda>x. le16_bytes (spec_pcm16 x)) samples))"
    using floatTo16BitPCM_bytes[of 44 samples
        "wav_header (numberOfChannels b) (sampleRate b) (length samples * 2) @
         replicate (length samples * 2) 0"]
    by simp
  show ?thesis
    unfolding encodeWAV_def Let_def get
    apply (subst and_then_def)
    apply (simp only: sum.case)
    apply (subst header_written)
    apply (simp add: pcm and_then_def mult.commute)
    done
qed

subsection \<open>Reading the header back\<close>

lemma bytes_sum32:
  fixes v :: nat
  assumes "v < 2 ^ 32"
  shows "v mod 256 + 256 * (v div 256 mod 256) + 65536 * (v div 65536 mod 256) +
         16777216 * (v div 16777216 mod 256) = v"
proof -
  have d2: "v div 65536 = v div 256 div 256" and d3: "v div 16777216 = v div 65536 div 256"
    by (simp_all add: div_mult2_eq)
  have s1: "v = v mod 256 + 256 * (v div 256)" by simp
  have s2: "v div 256 = v div 256 mod 256 + 256 * (v div 65536)" unfolding d2 by simp
  have s3: "v div 65536 = v div 65536 mod 256 + 256 * (v div 16777216)" unfolding d3 by simp
  have top: "v div 16777216 mod 256 = v div 16777216" using assms by simp
  show ?thesis unfolding top using s1 s2 s3 by linarith
qed

lemma bytes_sum16:
  fixes v :: nat
  assumes "v < 2 ^ 16"
  shows "v mod 256 + 256 * (v div 256 mod 256) = v"
proof -
  have "v div 256 mod 256 = v div 256" using assms by simp
  then show ?thesis by simp
qed

lemma unat_byte_of_nat: "unat (word_of_nat (v mod 256) :: byte) = v mod 256"
  by (simp add: unat_of_nat)

lemma getUint32_skip:
  assumes "length A \<le> off"
  shows "getUint32 (A @ B) off = getUint32 B (off - length A)"
proof -
  from assms obtain k where "off = length A + k" using le_Suc_ex by blast
  then show ?thesis by (simp add: getUint32_def nth_append)
qed

lemma getUint16_skip:
  assumes "length A \<le> off"
  shows "getUint16 (A @ B) off = getUint16 B (off - length A)"
proof -
  from assms obtain k where "off = length A + k" using le_Suc_ex by blast
  then show ?thesis by (simp add: getUint16_def nth_append)
qed

lemma getUint32_here:
  assumes "v < 2 ^ 32"
  shows "getUint32 (u32le v @ R) 0 = Some v"
proof -
  have "getUint32 (u32le v @ R) 0 =
      Some (v mod 256 + 256 * (v div 256 mod 256) + 65536 * (v div 65536 mod 256) +
            16777216 * (v div 16777216 mod 256))"
    by (simp add: getUint32_def u32le_def unat_byte_of_nat)
  then show ?thesis by (simp only: bytes_sum32[OF assms])
qed

lemma getUint16_here:
  assumes "v < 2 ^ 16"
  shows "getUint16 (u16le v @ R) 0 = Some v"
proof -
  have "getUint16 (u16le v @ R) 0 = Some (v mod 256 + 256 * (v div 256 mod 256))"
    by (simp add: getUint16_def u16le_def unat_byte_of_nat)
  then show ?thesis by (simp only: bytes_sum16[OF assms])
qed

lemma wav_fields:
  assumes "36 + d < 2 ^ 32" "r * c * 2 < 2 ^ 32" "c * 2 < 2 ^ 16"
  shows "getUint32 (wav_header c r d @ payload) 4 = Some (36 + d)"
    and "getUint32 (wav_header c r d @ payload) 40 = Some d"
    and "getUint32 (wav_header c r d @ payload) 28 = Some (r * c * 2)"
    and "getUint16 (wav_header c r d @ payload) 32 = Some (c * 2)"
    and "getUint16 (wav_header c r d @ payload) 34 = Some 16"
proof -
  have d: "d < 2 ^ 32" using assms(1) by simp
  show "getUint32 (wav_header c r d @ payload) 4 = Some (36 + d)"
    using assms(1) by (simp add: wav_header_def getUint32_skip getUint32_here)
  show "getUint32 (wav_header c r d @ payload) 40 = Some d"
    using d by (simp add: wav_header_def getUint32_skip getUint32_here)
  show "getUint32 (wav_header c r d @ payload) 28 = Some (r * c * 2)"
    using assms(2) by (simp add: wav_header_def getUint32_skip getUint32_here)
  show "getUint16 (wav_header c r d @ payload) 32 = Some (c * 2)"
    using assms(3) by (simp add: wav_header_def getUint16_skip getUint16_here)
  show "getUint16 (wav_header c r d @ payload) 34 = Some 16"
    by (simp add: wav_header_def getUint16_skip getUint16_here)
qed

subsection \<open>The transport encoding: decoding inverts encoding\<close>

lemma index_of_nth:
  "distinct xs \<Longrightarrow> i < length xs \<Longrightarrow> index_of (xs ! i) xs = Some i"
proof (induction xs arbitrary: i)
  case Nil
  then show ?case by simp
next
  case (Cons x xs)
  show ?case
  proof (cases i)
    case 0
    then show ?thesis by simp
  next
    case (Suc j)
    with Cons.prems have "xs ! j \<in> set xs" "x \<notin> set xs" by simp_all
    then have "xs ! j \<noteq> x" by auto
    with Suc Cons show ?thesis by simp
  qed
qed

lemma distinct_base64_alphabet: "distinct base64_alphabet"
  by (simp add: base64_alphabet_def)

lemma length_base64_alphabet: "length base64_alphabet = 64"
  by (simp add: base64_alphabet_def)

lemma index_of_sextet_char: "index_of (sextet_char i) base64_alphabet = Some (i mod 64)"
  unfolding sextet_char_def
  by (rule index_of_nth[OF distinct_base64_alphabet]) (simp add: length_base64_alphabet)

lemma sextet_char_in_alphabet: "sextet_char i \<in> set base64_alphabet"
  unfolding sextet_char_def by (rule nth_mem) (simp add: length_base64_alphabet)

lemma alphabet_not_special:
  "c \<in> set base64_alphabet \<Longrightarrow> c \<noteq> CHR ''='' \<and> \<not> isAsciiWhitespace c"
  by (auto simp: base64_alphabet_def isAsciiWhitespace_def)

lemma sextet_char_plain [simp]:
  "sextet_char i \<noteq> CHR ''=''" "\<not> isAsciiWhitespace (sextet_char i)"
  using alphabet_not_special[OF sextet_char_in_alphabet[of i]] by simp_all

lemma strip_padding_append:
  "2 \<le> length ys \<Longrightarrow> strip_padding (xs @ ys) = xs @ strip_padding ys"
proof -
  assume "2 \<le> length ys"
  then obtain a b r where r: "rev ys = a # b # r"
    by (cases "rev ys"; cases "tl (rev ys)") (auto simp: Suc_le_eq)
  then have ys: "ys = rev r @ [b, a]" by (metis rev_rev_ident rev.simps append.assoc append_Cons append_Nil)
  show ?thesis by (simp add: strip_padding_def ys)
qed

lemma length_bytes_to_base64: "length (bytes_to_base64 bs) mod 4 = 0"
  by (induction bs rule: bytes_to_base64.induct) (simp_all add: Let_def)

lemma chars_bytes_to_base64:
  "c \<in> set (bytes_to_base64 bs) \<Longrightarrow> c \<in> set base64_alphabet \<or> c = CHR ''=''"
  by (induction bs rule: bytes_to_base64.induct)
     (auto simp: Let_def sextet_char_in_alphabet)

lemma set_bytes_to_base64:
  "c \<in> set (bytes_to_base64 bs) \<Longrightarrow> \<not> isAsciiWhitespace c"
  using chars_bytes_to_base64[of c bs] alphabet_not_special[of c]
  by (auto simp: isAsciiWhitespace_def)

lemma sextet_of_char [simp]: "sextet_of (sextet_char i) = i mod 64"
  by (simp add: sextet_of_def index_of_sextet_char)

lemma three_bytes:
  fixes a b c :: nat
  assumes "a < 256" "b < 256" "c < 256"
  defines "n \<equiv> (a * 256 + b) * 256 + c"
  shows "((n div 262144 mod 64 * 64 + n div 4096 mod 64) * 64 + n div 64 mod 64) * 64 + n mod 64 = n"
    and "n div 65536 = a" and "n div 256 mod 256 = b" and "n mod 256 = c"
proof -
  have lt: "n < 16777216" using assms(1-3) unfolding n_def by simp
  have d2: "n div 4096 = n div 64 div 64" and d3: "n div 262144 = n div 4096 div 64"
    by (simp_all add: div_mult2_eq)
  have s1: "n = n mod 64 + 64 * (n div 64)" by simp
  have s2: "n div 64 = n div 64 mod 64 + 64 * (n div 4096)" unfolding d2 by simp
  have s3: "n div 4096 = n div 4096 mod 64 + 64 * (n div 262144)" unfolding d3 by simp
  have top: "n div 262144 mod 64 = n div 262144" using lt by simp
  have flat: "n div 262144 * 262144 + n div 4096 mod 64 * 4096 + n div 64 mod 64 * 64 + n mod 64 = n"
    using s1 s2 s3 by linarith
  show "((n div 262144 mod 64 * 64 + n div 4096 mod 64) * 64 + n div 64 mod 64) * 64 + n mod 64 = n"
    unfolding top using flat by (simp only: distrib_right mult.assoc)
  have form: "n = c + 256 * (a * 256 + b)" by (simp add: n_def)
  show "n mod 256 = c" unfolding form using assms(3) by (simp only: mod_mult_self2 mod_less)
  have "n div 256 = a * 256 + b" unfolding form using assms(3) by simp
  then show "n div 256 mod 256 = b" using assms(2) by simp
  have "n div 65536 = n div 256 div 256" by (simp add: div_mult2_eq)
  also have "\<dots> = a" using \<open>n div 256 = a * 256 + b\<close> assms(2) by simp
  finally show "n div 65536 = a" .
qed

lemma two_bytes:
  fixes a b :: nat
  assumes "a < 256" "b < 256"
  defines "n \<equiv> (a * 256 + b) * 4"
  shows "(n div 4096 mod 64 * 64 + n div 64 mod 64) * 64 + n mod 64 = n"
    and "n div 4 div 256 = a" and "n div 4 mod 256 = b"
proof -
  have lt: "n < 262144" using assms(1-2) unfolding n_def by simp
  have d2: "n div 4096 = n div 64 div 64" by (simp add: div_mult2_eq)
  have s1: "n = n mod 64 + 64 * (n div 64)" by simp
  have s2: "n div 64 = n div 64 mod 64 + 64 * (n div 4096)" unfolding d2 by simp
  have top: "n div 4096 mod 64 = n div 4096" using lt by simp
  have flat: "n div 4096 * 4096 + n div 64 mod 64 * 64 + n mod 64 = n"
    using s1 s2 by linarith
  show "(n div 4096 mod 64 * 64 + n div 64 mod 64) * 64 + n mod 64 = n"
    unfolding top using flat by (simp only: distrib_right mult.assoc)
  have "n div 4 = a * 256 + b" by (simp add: n_def)
  then show "n div 4 div 256 = a" "n div 4 mod 256 = b" using assms(2) by simp_all
qed

lemma one_byte:
  fixes a :: nat
  assumes "a < 256"
  defines "n \<equiv> a * 16"
  shows "n div 64 mod 64 * 64 + n mod 64 = n" and "n div 16 = a"
proof -
  have lt: "n < 4096" using assms(1) unfolding n_def by simp
  then have "n div 64 mod 64 = n div 64" by simp
  then show "n div 64 mod 64 * 64 + n mod 64 = n" by simp
  show "n div 16 = a" by (simp add: n_def)
qed

lemma base64_core:
  "\<forall>b\<in>set bs. b < 256 \<Longrightarrow>
   set (strip_padding (bytes_to_base64 bs)) \<subseteq> set base64_alphabet \<and>
   length (strip_padding (bytes_to_base64 bs)) mod 4 \<noteq> 1 \<and>
   sextets_to_bytes (map sextet_of (strip_padding (bytes_to_base64 bs))) = bs"
proof (induction bs rule: bytes_to_base64.induct)
  case (1 a b c rest)
  define n where "n = (a * 256 + b) * 256 + c"
  define q where "q = [sextet_char (n div 262144), sextet_char (n div 4096),
                       sextet_char (n div 64), sextet_char n]"
  have enc: "bytes_to_base64 (a # b # c # rest) = q @ bytes_to_base64 rest"
    by (simp add: Let_def q_def n_def)
  have abc: "a < 256" "b < 256" "c < 256" using "1.prems" by simp_all
  have strip: "strip_padding (q @ bytes_to_base64 rest) = q @ strip_padding (bytes_to_base64 rest)"
  proof (cases "bytes_to_base64 rest = []")
    case True
    then show ?thesis by (simp add: strip_padding_def q_def)
  next
    case False
    then have "length (bytes_to_base64 rest) \<noteq> 0" by simp
    with length_bytes_to_base64[of rest] have "2 \<le> length (bytes_to_base64 rest)"
      by presburger
    then show ?thesis by (rule strip_padding_append)
  qed
  from "1.IH" "1.prems" have ih:
    "set (strip_padding (bytes_to_base64 rest)) \<subseteq> set base64_alphabet"
    "length (strip_padding (bytes_to_base64 rest)) mod 4 \<noteq> 1"
    "sextets_to_bytes (map sextet_of (strip_padding (bytes_to_base64 rest))) = rest"
    by simp_all
  have "set q \<subseteq> set base64_alphabet"
    using sextet_char_in_alphabet by (auto simp: q_def)
  moreover have "length (q @ strip_padding (bytes_to_base64 rest)) mod 4 \<noteq> 1"
    using ih(2) by (simp add: q_def)
  moreover have "sextets_to_bytes (map sextet_of (q @ strip_padding (bytes_to_base64 rest))) =
      a # b # c # rest"
    using three_bytes[OF abc] ih(3)
    by (simp add: q_def Let_def n_def)
  ultimately show ?case unfolding enc strip using ih(1) by simp
next
  case (2 a b)
  have ab: "a < 256" "b < 256" using 2 by simp_all
  define n where "n = (a * 256 + b) * 4"
  define q where "q = [sextet_char (n div 4096), sextet_char (n div 64), sextet_char n]"
  have enc: "strip_padding (bytes_to_base64 [a, b]) = q"
    by (simp add: Let_def strip_padding_def q_def n_def)
  have "sextets_to_bytes (map sextet_of q) =
      [((n div 4096 mod 64 * 64 + n div 64 mod 64) * 64 + n mod 64) div 4 div 256,
       ((n div 4096 mod 64 * 64 + n div 64 mod 64) * 64 + n mod 64) div 4 mod 256]"
    by (simp add: q_def Let_def)
  also have "\<dots> = [a, b]"
    using two_bytes[OF ab] unfolding n_def[symmetric] by (simp only:)
  finally have "sextets_to_bytes (map sextet_of q) = [a, b]" .
  moreover have "set q \<subseteq> set base64_alphabet"
    using sextet_char_in_alphabet by (auto simp: q_def)
  moreover have "length q mod 4 \<noteq> 1" by (simp add: q_def)
  ultimately show ?case unfolding enc by simp
next
  case (3 a)
  have a: "a < 256" using 3 by simp
  define n where "n = a * 16"
  define q where "q = [sextet_char (n div 64), sextet_char n]"
  have enc: "strip_padding (bytes_to_base64 [a]) = q"
    by (simp add: Let_def strip_padding_def q_def n_def)
  have "sextets_to_bytes (map sextet_of q) = [(n div 64 mod 64 * 64 + n mod 64) div 16]"
    by (simp add: q_def)
  also have "\<dots> = [a]"
    using one_byte[OF a] unfolding n_def[symmetric] by (simp only:)
  finally have "sextets_to_bytes (map sextet_of q) = [a]" .
  moreover have "set q \<subseteq> set base64_alphabet"
    using sextet_char_in_alphabet by (auto simp: q_def)
  moreover have "length q mod 4 \<noteq> 1" by (simp add: q_def)
  ultimately show ?case unfolding enc by simp
next
  case 4
  show ?case by (simp add: strip_padding_def)
qed

lemma atob_btoa: "atob (btoa s) = Inr s"
proof -
  define bs where "bs = map (of_char :: char \<Rightarrow> nat) s"
  define enc where "enc = bytes_to_base64 bs"
  have small: "\<forall>b\<in>set bs. b < 256" by (auto simp: bs_def)
  have nows: "filter (\<lambda>c. \<not> isAsciiWhitespace c) enc = enc"
    unfolding enc_def using set_bytes_to_base64 by (simp add: filter_id_conv)
  have len: "length enc mod 4 = 0" unfolding enc_def by (rule length_bytes_to_base64)
  from base64_core[OF small] have core:
    "set (strip_padding enc) \<subseteq> set base64_alphabet"
    "length (strip_padding enc) mod 4 \<noteq> 1"
    "sextets_to_bytes (map sextet_of (strip_padding enc)) = bs"
    unfolding enc_def by simp_all
  have known: "index_of c base64_alphabet \<noteq> None" if "c \<in> set base64_alphabet" for c
  proof -
    from that obtain i where "i < length base64_alphabet" "c = base64_alphabet ! i"
      by (metis in_set_conv_nth)
    then show ?thesis using index_of_nth[OF distinct_base64_alphabet, of i] by simp
  qed
  have ex: "\<not> list_ex (\<lambda>c. index_of c base64_alphabet = None) (strip_padding enc)"
    using core(1) known by (auto simp: list_ex_iff)
  have "map char_of bs = s" by (simp add: bs_def comp_def)
  then show ?thesis
    using nows len core(2,3) ex
    by (simp add: atob_def btoa_def bs_def[symmetric] enc_def[symmetric] Let_def)
qed

lemma decode_encode: "decode (encode bytes) = Inr bytes"
proof -
  have one: "(word_of_nat (unat b mod 256) :: byte) = b" for b :: byte
  proof -
    have "unat b mod 256 = unat b" using unsigned_less[of b, where ?'a = nat] by simp
    then show ?thesis by (simp only: of_nat_unat) simp
  qed
  have "map (\<lambda>c. word_of_nat (of_char c) :: byte) (map (\<lambda>b. char_of (unat b)) bytes) = bytes"
    by (induction bytes) (simp_all add: one)
  then show ?thesis by (simp add: decode_def encode_def atob_btoa)
qed

subsection \<open>Capture and decoding below full scale\<close>

lemma length_uint8_view: "length (uint8_view ws) = 2 * length ws"
  by (induction ws) (simp_all add: uint8_view_def int16_bytes_def)

lemma nth_uint8_view:
  "i < length ws \<Longrightarrow>
   uint8_view ws ! (2 * i) = ucast (ws ! i) \<and>
   uint8_view ws ! (2 * i + 1) = ucast (drop_bit 8 (ws ! i))"
proof (induction ws arbitrary: i)
  case Nil
  then show ?case by simp
next
  case (Cons w ws)
  show ?case
  proof (cases i)
    case 0
    then show ?thesis by (simp add: uint8_view_def int16_bytes_def)
  next
    case (Suc j)
    with Cons.prems Cons.IH[of j] show ?thesis
      by (simp add: uint8_view_def int16_bytes_def)
  qed
qed

lemma le_int16_of_bytes:
  "le_int16 (ucast w) (ucast (drop_bit 8 w)) = sint (w :: 16 word)"
  using sint_le_int16[of "ucast w" "ucast (drop_bit 8 w)"] by (simp only: int16_roundtrip)

lemma decode_captured_words:
  assumes "ws \<noteq> []" "length ws < 2 ^ 32" "0 < rate"
    and "1 \<le> maxChannels ctx" "minSampleRate ctx \<le> rate" "rate \<le> maxSampleRate ctx"
  shows "\<exists>buffer. decodeAudioData (uint8_view ws) ctx rate 1 = Inr buffer \<and>
     length (channelData buffer ! 0) = length ws \<and>
     (\<forall>i<length ws. channelData buffer ! 0 ! i = real_of_int (sint (ws ! i)) / 32768)"
proof -
  have frames: "length (uint8_view ws) div (2 * 1) = length ws"
    by (simp add: length_uint8_view)
  have "even (length (uint8_view ws))" by (simp add: length_uint8_view)
  moreover have "0 < length (uint8_view ws) div (2 * 1)" "length (uint8_view ws) div (2 * 1) < 2 ^ 32"
    unfolding frames using assms by simp_all
  ultimately obtain buffer where b:
    "decodeAudioData (uint8_view ws) ctx rate 1 = Inr buffer"
    "\<forall>channel<1.
        length (channelData buffer ! channel) = length (uint8_view ws) div (2 * 1) \<and>
        (\<forall>i<length (uint8_view ws) div (2 * 1).
           channelData buffer ! channel ! i =
             real_of_int (le_int16 (uint8_view ws ! (2 * (i * 1 + channel)))
                                   (uint8_view ws ! (2 * (i * 1 + channel) + 1))) / 32768)"
    using decodeAudioData_even[of "uint8_view ws" 1 rate ctx] assms(3-6) by auto
  from b(2) have len: "length (channelData buffer ! 0) = length ws"
    and smp: "\<And>i. i < length ws \<Longrightarrow> channelData buffer ! 0 ! i =
             real_of_int (le_int16 (uint8_view ws ! (2 * i)) (uint8_view ws ! (2 * i + 1))) / 32768"
    unfolding frames by simp_all
  have "channelData buffer ! 0 ! i = real_of_int (sint (ws ! i)) / 32768" if "i < length ws" for i
    using smp[OF that] nth_uint8_view[OF that] by (simp add: le_int16_of_bytes)
  with b(1) len show ?thesis by blast
qed

lemma capture_roundtrip:
  assumes "data \<noteq> []" "length data < 2 ^ 32" "\<forall>x\<in>set data. - 1 \<le> x \<and> x < 1"
    and "conforming ctx"
  shows "\<exists>bytes buffer. decode (blob_data (createPcmBlob data)) = Inr bytes \<and>
     decodeAudioData bytes ctx LIVE_AUDIO_SAMPLE_RATE 1 = Inr buffer \<and>
     length (channelData buffer ! 0) = length data \<and>
     (\<forall>i<length data. \<bar>channelData buffer ! 0 ! i - data ! i\<bar> < 1 / 32768)"
proof -
  have d: "decode (blob_data (createPcmBlob data)) = Inr (uint8_view (pcm_int16 data))"
    by (simp add: createPcmBlob_def decode_encode)
  have "pcm_int16 data \<noteq> []" "length (pcm_int16 data) < 2 ^ 32" "0 < LIVE_AUDIO_SAMPLE_RATE"
    "1 \<le> maxChannels ctx" "minSampleRate ctx \<le> LIVE_AUDIO_SAMPLE_RATE"
    "LIVE_AUDIO_SAMPLE_RATE \<le> maxSampleRate ctx"
    using assms by (simp_all add: pcm_int16_def LIVE_AUDIO_SAMPLE_RATE_def conforming_def)
  from decode_captured_words[OF this] obtain buffer where b:
    "decodeAudioData (uint8_view (pcm_int16 data)) ctx LIVE_AUDIO_SAMPLE_RATE 1 = Inr buffer"
    "length (channelData buffer ! 0) = length (pcm_int16 data)"
    "\<forall>i<length (pcm_int16 data). channelData buffer ! 0 ! i =
        real_of_int (sint (pcm_int16 data ! i)) / 32768"
    by blast
  have "\<bar>channelData buffer ! 0 ! i - data ! i\<bar> < 1 / 32768" if "i < length data" for i
  proof -
    from that assms(3) have r: "- 1 \<le> data ! i" "data ! i < 1" by simp_all
    from b(3) that have "channelData buffer ! 0 ! i =
        real_of_int (sint (ToInt16 (data ! i * 32768))) / 32768"
      by (simp add: pcm_int16_def)
    then show ?thesis using capture_roundtrip_error[OF r] by (simp only:)
  qed
  with d b(1,2) show ?thesis by (simp add: pcm_int16_def)
qed

lemmas sample_eval = spec_pcm16_def clamp_sample_def js_trunc_def le16_bytes_def

lemmas capture_eval = createPcmBlob_def pcm_int16_def ToInt16_def js_trunc_def uint8_view_def
  int16_bytes_def encode_def btoa_def sextet_char_def base64_alphabet_def

section \<open>The claims about the sample codec and the WAV serialisation\<close>

text \<open>
  Claim C6 at the sample 1.0, which lies in \<open>[-1, 1]\<close>: \<^verbatim>\<open>createPcmBlob\<close> computes
  \<open>1.0 * 32768 = 32768\<close>, which the \<^verbatim>\<open>Int16Array\<close> stores as \<open>-32768\<close> (bytes 00 80,
  base64 \<^verbatim>\<open>AIA=\<close>); decoding these bytes yields the sample \<open>-1\<close>, which differs from
  1.0 by 2, more than one quantisation step. The audio context is one with the least
  ranges that the standard allows. (For sequences of samples in \<open>[-1, 1)\<close> every
  decoded sample is within one step of the original: lemma \<open>capture_roundtrip\<close>.)
\<close>

theorem createPcmBlob_full_scale_wraps:
  "blob_data (createPcmBlob [1]) = ''AIA='' \<and>
   decode ''AIA='' = Inr [0, 128] \<and>
   decodeAudioData [0, 128] least_context LIVE_AUDIO_SAMPLE_RATE 1 =
     Inr \<lparr>sampleRate = 16000, channelData = [[- 1]]\<rparr> \<and>
   1 / 32768 < \<bar>(- 1 :: real) - 1\<bar>"
proof -
  have "blob_data (createPcmBlob [1]) = ''AIA=''" by (simp add: capture_eval)
  moreover have "decode ''AIA='' = Inr [0, 128]" by (simp add: base64_eval)
  moreover have "decodeAudioData [0, 128] least_context LIVE_AUDIO_SAMPLE_RATE 1 =
     Inr \<lparr>sampleRate = 16000, channelData = [[- 1]]\<rparr>"
    by (simp add: decode_eval LIVE_AUDIO_SAMPLE_RATE_def least_context_def)
  ultimately show ?thesis by simp
qed




text \<open>
  Claim C8, as amended. \<^verbatim>\<open>decodeAudioData\<close> has no check of its own and no
  \<^verbatim>\<open>MalformedAudioError\<close>. A byte sequence of odd length is rejected with the
  \<^verbatim>\<open>RangeError\<close> of the \<^verbatim>\<open>Int16Array\<close> view. One of even length is rejected with the
  \<^verbatim>\<open>NotSupportedError\<close> of \<^verbatim>\<open>createBuffer\<close> when it holds no full frame (the empty
  sequence among them), or when the channel count or the sample rate is zero or outside
  the nominal range of the audio context. Every other sequence of even length with fewer
  than \<open>2^32\<close> frames is decoded: the buffer has \<open>length div (2 * channelCount)\<close> frames,
  which is \<open>length / (2 * channelCount)\<close> when the length is a multiple, and sample \<open>i\<close>
  of channel \<open>c\<close> is the little-endian signed 16-bit value at sample position
  \<open>i * channelCount + c\<close>, divided by 32768; bytes after the last full frame are ignored.
  In every context that conforms to the standard this holds for 1 to 32 channels at rates
  from 8000 to 96000 Hz.
\<close>

theorem decodeAudioData_frames:
  "(odd (length data) \<longrightarrow> decodeAudioData data ctx sampleRate' numChannels = Inl RangeError) \<and>
   (even (length data) \<and> length data div (2 * numChannels) = 0 \<longrightarrow>
      decodeAudioData data ctx sampleRate' numChannels = Inl NotSupportedError) \<and>
   (even (length data) \<and>
    (numChannels = 0 \<or> maxChannels ctx < numChannels \<or> sampleRate' = 0 \<or>
     sampleRate' < minSampleRate ctx \<or> maxSampleRate ctx < sampleRate') \<longrightarrow>
      decodeAudioData data ctx sampleRate' numChannels = Inl NotSupportedError) \<and>
   (even (length data) \<and> 0 < numChannels \<and> numChannels \<le> maxChannels ctx \<and>
    0 < sampleRate' \<and> minSampleRate ctx \<le> sampleRate' \<and> sampleRate' \<le> maxSampleRate ctx \<and>
    0 < length data div (2 * numChannels) \<and> length data div (2 * numChannels) < 2 ^ 32 \<longrightarrow>
      decodeAudioData data ctx sampleRate' numChannels =
        Inr (pcm_buffer data sampleRate' numChannels)) \<and>
   (conforming ctx \<and> even (length data) \<and> 0 < numChannels \<and> numChannels \<le> 32 \<and>
    8000 \<le> sampleRate' \<and> sampleRate' \<le> 96000 \<and>
    0 < length data div (2 * numChannels) \<and> length data div (2 * numChannels) < 2 ^ 32 \<longrightarrow>
      decodeAudioData data ctx sampleRate' numChannels =
        Inr (pcm_buffer data sampleRate' numChannels))"
proof (intro conjI impI)
  assume "odd (length data)"
  then show "decodeAudioData data ctx sampleRate' numChannels = Inl RangeError"
    by (rule decodeAudioData_odd)
next
  assume a: "even (length data) \<and> length data div (2 * numChannels) = 0"
  then have "length (int16_elements data) div numChannels = 0"
    by (simp add: length_int16_elements div_mult2_eq)
  then have "nat \<lfloor>real (length (int16_elements data)) / real numChannels\<rfloor> = 0"
    by (simp add: floor_divide_of_nat_eq)
  with a show "decodeAudioData data ctx sampleRate' numChannels = Inl NotSupportedError"
    by (simp add: decodeAudioData_def new_Int16Array_def createBuffer_def Let_def)
next
  assume "even (length data) \<and>
    (numChannels = 0 \<or> maxChannels ctx < numChannels \<or> sampleRate' = 0 \<or>
     sampleRate' < minSampleRate ctx \<or> maxSampleRate ctx < sampleRate')"
  then show "decodeAudioData data ctx sampleRate' numChannels = Inl NotSupportedError"
    by (auto simp: decodeAudioData_def new_Int16Array_def createBuffer_def Let_def)
next
  assume "even (length data) \<and> 0 < numChannels \<and> numChannels \<le> maxChannels ctx \<and>
    0 < sampleRate' \<and> minSampleRate ctx \<le> sampleRate' \<and> sampleRate' \<le> maxSampleRate ctx \<and>
    0 < length data div (2 * numChannels) \<and> length data div (2 * numChannels) < 2 ^ 32"
  then show "decodeAudioData data ctx sampleRate' numChannels =
      Inr (pcm_buffer data sampleRate' numChannels)"
    by (intro decodeAudioData_pcm_buffer) simp_all
next
  assume "conforming ctx \<and> even (length data) \<and> 0 < numChannels \<and> numChannels \<le> 32 \<and>
    8000 \<le> sampleRate' \<and> sampleRate' \<le> 96000 \<and>
    0 < length data div (2 * numChannels) \<and> length data div (2 * numChannels) < 2 ^ 32"
  then show "decodeAudioData data ctx sampleRate' numChannels =
      Inr (pcm_buffer data sampleRate' numChannels)"
    by (intro decodeAudioData_pcm_buffer) (simp_all add: conforming_def)
qed

text \<open>
  Witness for C8, in a context with the least ranges that the standard allows: the
  extreme samples, one byte, two bytes for two channels, and a sample rate of 1 Hz.
\<close>

theorem decodeAudioData_frames_witness:
  "conforming least_context \<and>
   even (length [0, 128, 255, 127 :: byte]) \<and>
   0 < length [0, 128, 255, 127 :: byte] div (2 * 1) \<and>
   decodeAudioData [0, 128, 255, 127] least_context 24000 1 =
     Inr \<lparr>sampleRate = 24000, channelData = [[- 1, 32767 / 32768]]\<rparr> \<and>
   odd (length [65 :: byte]) \<and> decodeAudioData [65] least_context 24000 1 = Inl RangeError \<and>
   length [0, 128 :: byte] div (2 * 2) = 0 \<and>
   decodeAudioData [0, 128] least_context 24000 2 = Inl NotSupportedError \<and>
   1 < minSampleRate least_context \<and>
   decodeAudioData [0, 0] least_context 1 1 = Inl NotSupportedError"
proof -
  have c: "conforming least_context" by (simp add: conforming_def least_context_def)
  have r: "(1::nat) < minSampleRate least_context" by (simp add: least_context_def)
  have b: "pcm_buffer [0, 128, 255, 127] 24000 (Suc 0) =
     \<lparr>sampleRate = 24000, channelData = [[- 1, 32767 / 32768]]\<rparr>"
    by (simp add: pcm_buffer_def le_int16_def upt_rec)
  from decodeAudioData_frames[of "[0, 128, 255, 127]" least_context 24000 1] c
  have ev: "decodeAudioData [0, 128, 255, 127] least_context 24000 1 =
     Inr \<lparr>sampleRate = 24000, channelData = [[- 1, 32767 / 32768]]\<rparr>"
    by (simp add: b)
  from decodeAudioData_frames[of "[65]" least_context 24000 1]
  have o: "decodeAudioData [65] least_context 24000 1 = Inl RangeError" by simp
  from decodeAudioData_frames[of "[0, 128]" least_context 24000 2]
  have n: "decodeAudioData [0, 128] least_context 24000 2 = Inl NotSupportedError" by simp
  from decodeAudioData_frames[of "[0, 0]" least_context 1 1] r
  have l: "decodeAudioData [0, 0] least_context 1 1 = Inl NotSupportedError" by simp
  from c r ev o n l show ?thesis by simp
qed

text \<open>
  Counterexample to C8 as stated: six bytes for two channels are not a multiple of four,
  and are decoded to one frame without an error; and the empty sequence, a multiple of
  two, is rejected.
\<close>

theorem decodeAudioData_frames_counterexample:
  "length [1, 0, 2, 0, 3, 0 :: byte] mod (2 * 2) = 2 \<and>
   decodeAudioData [1, 0, 2, 0, 3, 0] least_context 24000 2 =
     Inr \<lparr>sampleRate = 24000, channelData = [[1 / 32768], [2 / 32768]]\<rparr> \<and>
   length ([] :: byte list) mod (2 * 1) = 0 \<and>
   decodeAudioData [] least_context 24000 1 = Inl NotSupportedError"
  by (simp add: decode_eval least_context_def)

text \<open>
  Claim C9. For an audio buffer with channel 0 holding \<open>frameCount\<close> samples (sizes
  within the width of the header fields), \<^verbatim>\<open>encodeWAV\<close> returns a blob of
  \<open>44 + 2 * frameCount\<close> bytes: the 44 bytes of the canonical header, followed by the
  16-bit PCM encoding of channel 0 alone. Read back as little-endian unsigned integers,
  the field at offset 4 is \<open>36 + dataLength\<close>, at offset 40 \<open>dataLength = 2 * frameCount\<close>,
  at offset 28 \<open>sampleRate * channels * 2\<close>, at offset 32 \<open>channels * 2\<close> and at offset 34
  the number 16.
\<close>

theorem encodeWAV_header_fields:
  assumes "channelData b = samples # others"
    and "36 + 2 * length samples < 2 ^ 32"
    and "sampleRate b * numberOfChannels b * 2 < 2 ^ 32"
    and "numberOfChannels b * 2 < 2 ^ 16"
  shows "\<exists>bytes. encodeWAV b = Inr \<lparr>blob_bytes = bytes, blob_type = ''audio/wav''\<rparr> \<and>
       length bytes = 44 + 2 * length samples \<and>
       take 44 bytes = wav_header (numberOfChannels b) (sampleRate b) (2 * length samples) \<and>
       drop 44 bytes = concat (map (\<lambda>x. le16_bytes (spec_pcm16 x)) samples) \<and>
       getUint32 bytes 4 = Some (36 + 2 * length samples) \<and>
       getUint32 bytes 40 = Some (2 * length samples) \<and>
       getUint32 bytes 28 = Some (sampleRate b * numberOfChannels b * 2) \<and>
       getUint16 bytes 32 = Some (numberOfChannels b * 2) \<and>
       getUint16 bytes 34 = Some 16"
proof -
  let ?h = "wav_header (numberOfChannels b) (sampleRate b) (2 * length samples)"
  let ?p = "concat (map (\<lambda>x. le16_bytes (spec_pcm16 x)) samples)"
  have len: "length ?p = 2 * length samples"
    by (induction samples) simp_all
  have "encodeWAV b = Inr \<lparr>blob_bytes = ?h @ ?p, blob_type = ''audio/wav''\<rparr>"
    by (rule encodeWAV_bytes[OF assms(1)])
  moreover have "length (?h @ ?p) = 44 + 2 * length samples" using len by simp
  moreover have "take 44 (?h @ ?p) = ?h" "drop 44 (?h @ ?p) = ?p" by simp_all
  ultimately show ?thesis
    using wav_fields[OF assms(2-4), of ?p] by blast
qed

text \<open>
  Witness for C9: a buffer of two channels with four frames at 24000 Hz; the payload is
  that of channel 0.
\<close>

theorem encodeWAV_header_fields_witness:
  "channelData \<lparr>sampleRate = 24000, channelData = [[1, 1 / 2, - 1, - 1 / 2], [0, 0, 0, 0]]\<rparr> =
     [1, 1 / 2, - 1, - 1 / 2] # [[0, 0, 0, 0]] \<and>
   36 + 2 * length [1, 1 / 2, - 1, - 1 / 2 :: real] < (2 :: nat) ^ 32 \<and>
   encodeWAV \<lparr>sampleRate = 24000, channelData = [[1, 1 / 2, - 1, - 1 / 2], [0, 0, 0, 0]]\<rparr> =
     Inr \<lparr>blob_bytes =
            [82, 73, 70, 70, 44, 0, 0, 0, 87, 65, 86, 69, 102, 109, 116, 32,
             16, 0, 0, 0, 1, 0, 2, 0, 192, 93, 0, 0, 0, 119, 1, 0, 4, 0, 16, 0,
             100, 97, 116, 97, 8, 0, 0, 0,
             255, 127, 255, 63, 0, 128, 0, 192],
          blob_type = ''audio/wav''\<rparr>"
proof -
  let ?b = "\<lparr>sampleRate = 24000, channelData = [[1, 1 / 2, - 1, - 1 / 2], [0, 0, 0, 0]]\<rparr>"
  have h: "channelData ?b = [1, 1 / 2, - 1, - 1 / 2] # [[0, 0, 0, 0]]"
    "36 + 2 * length [1, 1 / 2, - 1, - 1 / 2 :: real] < (2 :: nat) ^ 32"
    "sampleRate ?b * numberOfChannels ?b * 2 < 2 ^ 32"
    "numberOfChannels ?b * 2 < 2 ^ 16"
    by (simp_all add: numberOfChannels_def)
  from encodeWAV_header_fields[OF h]
  obtain bytes where b: "encodeWAV ?b = Inr \<lparr>blob_bytes = bytes, blob_type = ''audio/wav''\<rparr>"
    "take 44 bytes = wav_header (numberOfChannels ?b) (sampleRate ?b)
        (2 * length [1, 1 / 2, - 1, - 1 / 2 :: real])"
    "drop 44 bytes = concat (map (\<lambda>x. le16_bytes (spec_pcm16 x)) [1, 1 / 2, - 1, - 1 / 2])"
    by blast
  have "bytes = take 44 bytes @ drop 44 bytes" by simp
  also have "\<dots> = [82, 73, 70, 70, 44, 0, 0, 0, 87, 65, 86, 69, 102, 109, 116, 32,
             16, 0, 0, 0, 1, 0, 2, 0, 192, 93, 0, 0, 0, 119, 1, 0, 4, 0, 16, 0,
             100, 97, 116, 97, 8, 0, 0, 0,
             255, 127, 255, 63, 0, 128, 0, 192]"
    unfolding b(2,3)
    by (simp add: wav_header_def u32le_def u16le_def ascii_def numberOfChannels_def sample_eval)
  finally show ?thesis using b(1) h by simp
qed


section \<open>Playable chunks\<close>

lemma duration_pcm_buffer:
  "duration (pcm_buffer bytes TTS_AUDIO_SAMPLE_RATE (Suc 0)) = real (length bytes div 2) / 24000"
  by (simp add: duration_def buffer_length_def pcm_buffer_def TTS_AUDIO_SAMPLE_RATE_def)

lemma playable_decodes:
  assumes "conforming audioContext" "playable base64Audio"
  shows "\<exists>bytes. decode base64Audio = Inr bytes \<and>
    decodeAudioData bytes audioContext TTS_AUDIO_SAMPLE_RATE 1 =
      Inr (pcm_buffer bytes TTS_AUDIO_SAMPLE_RATE 1) \<and>
    chunk_duration base64Audio = duration (pcm_buffer bytes TTS_AUDIO_SAMPLE_RATE 1)"
proof -
  from assms(2) obtain bytes where b: "decode base64Audio = Inr bytes" "bytes \<noteq> []"
    "even (length bytes)" "length bytes div 2 < 2 ^ 32"
    by (auto simp: playable_def split: sum.splits)
  from b(3) obtain k where k: "length bytes = 2 * k" by (elim evenE)
  have "length bytes \<noteq> 0" using b(2) by simp
  with k have "k \<noteq> 0" by auto
  with k have pos: "0 < length bytes div (2 * 1)" by simp
  have "decodeAudioData bytes audioContext TTS_AUDIO_SAMPLE_RATE 1 =
      Inr (pcm_buffer bytes TTS_AUDIO_SAMPLE_RATE 1)"
    using b(3,4) pos assms(1)
    by (intro decodeAudioData_pcm_buffer) (simp_all add: conforming_def TTS_AUDIO_SAMPLE_RATE_def)
  moreover have "chunk_duration base64Audio = duration (pcm_buffer bytes TTS_AUDIO_SAMPLE_RATE 1)"
    by (simp add: chunk_duration_def b(1) duration_pcm_buffer)
  ultimately show ?thesis using b(1) by blast
qed

lemma playAudio_playable:
  assumes "conforming audioContext" "playable base64Audio"
  shows "\<exists>bytes. decode base64Audio = Inr bytes \<and>
    playAudio base64Audio audioContext currentTime st =
      (Inr (),
       st\<lparr>nextStartTime := max (nextStartTime st) currentTime + chunk_duration base64Audio,
          audioSources := audioSources st @
            [\<lparr>node_id = length (device_schedule st),
              node_buffer = pcm_buffer bytes TTS_AUDIO_SAMPLE_RATE 1,
              start_time = max (nextStartTime st) currentTime\<rparr>],
          device_schedule := device_schedule st @
            [\<lparr>node_id = length (device_schedule st),
              node_buffer = pcm_buffer bytes TTS_AUDIO_SAMPLE_RATE 1,
              start_time = max (nextStartTime st) currentTime\<rparr>]\<rparr>)"
proof -
  from playable_decodes[OF assms] obtain bytes where b: "decode base64Audio = Inr bytes"
    "decodeAudioData bytes audioContext TTS_AUDIO_SAMPLE_RATE 1 =
      Inr (pcm_buffer bytes TTS_AUDIO_SAMPLE_RATE 1)"
    "chunk_duration base64Audio = duration (pcm_buffer bytes TTS_AUDIO_SAMPLE_RATE 1)"
    by blast
  have ne: "base64Audio \<noteq> []" using assms(2) by (simp add: playable_def)
  show ?thesis
  proof (cases base64Audio audioContext currentTime st rule: playAudio_cases)
    case empty
    with ne show ?thesis by simp
  next
    case (failed e)
    with b show ?thesis by auto
  next
    case (scheduled data audioBuffer)
    with b show ?thesis by simp
  qed
qed

lemma run_events_playable:
  assumes "conforming audioContext"
  shows "\<forall>call\<in>set calls. playable (fst call) \<Longrightarrow> on_time (nextStartTime st) calls \<Longrightarrow>
    nextStartTime (run_events audioContext (map play_event calls) st) =
      nextStartTime st + (\<Sum>call\<leftarrow>calls. chunk_duration (fst call)) \<and>
    map (\<lambda>n. (start_time n, duration (node_buffer n)))
        (device_schedule (run_events audioContext (map play_event calls) st)) =
      map (\<lambda>n. (start_time n, duration (node_buffer n))) (device_schedule st) @
      expected_schedule (nextStartTime st) calls"
proof (induction calls arbitrary: st)
  case Nil
  then show ?case by simp
next
  case (Cons call calls)
  obtain chunk currentTime where call: "call = (chunk, currentTime)" by (cases call)
  from Cons.prems call have p: "playable chunk" and t: "currentTime \<le> nextStartTime st"
    and rest: "on_time (nextStartTime st + chunk_duration chunk) calls" by simp_all
  from playAudio_playable[OF assms p, of currentTime st] obtain bytes where
    b: "decode chunk = Inr bytes"
    and play: "playAudio chunk audioContext currentTime st =
      (Inr (),
       st\<lparr>nextStartTime := max (nextStartTime st) currentTime + chunk_duration chunk,
          audioSources := audioSources st @
            [\<lparr>node_id = length (device_schedule st),
              node_buffer = pcm_buffer bytes TTS_AUDIO_SAMPLE_RATE 1,
              start_time = max (nextStartTime st) currentTime\<rparr>],
          device_schedule := device_schedule st @
            [\<lparr>node_id = length (device_schedule st),
              node_buffer = pcm_buffer bytes TTS_AUDIO_SAMPLE_RATE 1,
              start_time = max (nextStartTime st) currentTime\<rparr>]\<rparr>)"
    by blast
  have d: "chunk_duration chunk = duration (pcm_buffer bytes TTS_AUDIO_SAMPLE_RATE 1)"
    by (simp add: chunk_duration_def b duration_pcm_buffer)
  define st' where "st' = step audioContext (play_event call) st"
  have cursor: "nextStartTime st' = nextStartTime st + chunk_duration chunk"
    using t by (simp add: st'_def play_event_def call play max_def)
  have sched: "map (\<lambda>n. (start_time n, duration (node_buffer n))) (device_schedule st') =
      map (\<lambda>n. (start_time n, duration (node_buffer n))) (device_schedule st) @
      [(nextStartTime st, chunk_duration chunk)]"
    using t by (simp add: st'_def play_event_def call play max_def d)
  from Cons.prems(1) have "\<forall>call\<in>set calls. playable (fst call)" by simp
  moreover have "on_time (nextStartTime st') calls" using rest cursor by simp
  ultimately have IH:
    "nextStartTime (run_events audioContext (map play_event calls) st') =
      nextStartTime st' + (\<Sum>call\<leftarrow>calls. chunk_duration (fst call))"
    "map (\<lambda>n. (start_time n, duration (node_buffer n)))
        (device_schedule (run_events audioContext (map play_event calls) st')) =
      map (\<lambda>n. (start_time n, duration (node_buffer n))) (device_schedule st') @
      expected_schedule (nextStartTime st') calls"
    using Cons.IH[of st'] by simp_all
  have run: "run_events audioContext (map play_event (call # calls)) st =
      run_events audioContext (map play_event calls) st'"
    by (simp add: st'_def)
  show ?case unfolding run IH cursor sched by (simp add: call)
qed

section \<open>The claims about the playback scheduler\<close>

text \<open>
  Claim C4. A chunk that is playable is scheduled, in every audio context that conforms
  to the standard: the call returns without an error, and a new node with the decoded
  samples of the chunk is started at \<open>max cursor now\<close> and added to the active sources,
  and the cursor moves to that time plus the duration of the chunk. For every
  sequence of calls with playable chunks from the initial state (cursor 0), made while
  the device clock is never past the cursor, the cursor at the end is the sum of the
  durations of the chunks, and the device has been given, in order, every chunk with its
  own duration, each starting where its predecessor ends. In every run of the scheduler
  from the initial state, whatever the chunks are and whatever the device clock reads at
  the calls, with \<^verbatim>\<open>ended\<close> events in between, a node that was started earlier ends no
  later than any node started after it begins, so no two playback intervals overlap; and
  if at every call the clock has not advanced past the cursor, the cursor at the end is
  the sum of the durations of the nodes that were started, and every node starts exactly
  where its predecessor ends.
\<close>

theorem playback_never_overlaps:
  "(conforming audioContext \<and> playable base64Audio \<longrightarrow>
       (\<exists>bytes. decode base64Audio = Inr bytes \<and>
          playAudio base64Audio audioContext currentTime st =
            (Inr (),
             st\<lparr>nextStartTime := max (nextStartTime st) currentTime + chunk_duration base64Audio,
                audioSources := audioSources st @
                  [\<lparr>node_id = length (device_schedule st),
                    node_buffer = pcm_buffer bytes TTS_AUDIO_SAMPLE_RATE 1,
                    start_time = max (nextStartTime st) currentTime\<rparr>],
                device_schedule := device_schedule st @
                  [\<lparr>node_id = length (device_schedule st),
                    node_buffer = pcm_buffer bytes TTS_AUDIO_SAMPLE_RATE 1,
                    start_time = max (nextStartTime st) currentTime\<rparr>]\<rparr>) \<and>
          duration (pcm_buffer bytes TTS_AUDIO_SAMPLE_RATE 1) = chunk_duration base64Audio)) \<and>
   (conforming audioContext \<and> (\<forall>call\<in>set calls. playable (fst call)) \<and> on_time 0 calls \<longrightarrow>
       nextStartTime (run_events audioContext (map play_event calls) initial_playback) =
         (\<Sum>call\<leftarrow>calls. chunk_duration (fst call)) \<and>
       map (\<lambda>n. (start_time n, duration (node_buffer n)))
           (device_schedule (run_events audioContext (map play_event calls) initial_playback)) =
         expected_schedule 0 calls) \<and>
   (\<forall>i j. i < j \<and> j < length (device_schedule (run_events audioContext evs initial_playback)) \<longrightarrow>
       end_time (device_schedule (run_events audioContext evs initial_playback) ! i)
         \<le> start_time (device_schedule (run_events audioContext evs initial_playback) ! j)) \<and>
   (clock_never_ahead audioContext evs initial_playback \<longrightarrow>
       nextStartTime (run_events audioContext evs initial_playback) =
         (\<Sum>n\<leftarrow>device_schedule (run_events audioContext evs initial_playback).
            duration (node_buffer n)) \<and>
       (\<forall>j. Suc j < length (device_schedule (run_events audioContext evs initial_playback)) \<longrightarrow>
          start_time (device_schedule (run_events audioContext evs initial_playback) ! Suc j) =
          end_time (device_schedule (run_events audioContext evs initial_playback) ! j)))"
proof (intro conjI impI)
  assume a: "conforming audioContext \<and> playable base64Audio"
  then obtain bytes where b: "decode base64Audio = Inr bytes"
    "playAudio base64Audio audioContext currentTime st =
            (Inr (),
             st\<lparr>nextStartTime := max (nextStartTime st) currentTime + chunk_duration base64Audio,
                audioSources := audioSources st @
                  [\<lparr>node_id = length (device_schedule st),
                    node_buffer = pcm_buffer bytes TTS_AUDIO_SAMPLE_RATE 1,
                    start_time = max (nextStartTime st) currentTime\<rparr>],
                device_schedule := device_schedule st @
                  [\<lparr>node_id = length (device_schedule st),
                    node_buffer = pcm_buffer bytes TTS_AUDIO_SAMPLE_RATE 1,
                    start_time = max (nextStartTime st) currentTime\<rparr>]\<rparr>)"
    using playAudio_playable[of audioContext base64Audio currentTime st] by blast
  have "duration (pcm_buffer bytes TTS_AUDIO_SAMPLE_RATE 1) = chunk_duration base64Audio"
    by (simp add: chunk_duration_def b(1) duration_pcm_buffer)
  with b show "\<exists>bytes. decode base64Audio = Inr bytes \<and>
          playAudio base64Audio audioContext currentTime st =
            (Inr (),
             st\<lparr>nextStartTime := max (nextStartTime st) currentTime + chunk_duration base64Audio,
                audioSources := audioSources st @
                  [\<lparr>node_id = length (device_schedule st),
                    node_buffer = pcm_buffer bytes TTS_AUDIO_SAMPLE_RATE 1,
                    start_time = max (nextStartTime st) currentTime\<rparr>],
                device_schedule := device_schedule st @
                  [\<lparr>node_id = length (device_schedule st),
                    node_buffer = pcm_buffer bytes TTS_AUDIO_SAMPLE_RATE 1,
                    start_time = max (nextStartTime st) currentTime\<rparr>]\<rparr>) \<and>
          duration (pcm_buffer bytes TTS_AUDIO_SAMPLE_RATE 1) = chunk_duration base64Audio"
    by blast
next
  assume a: "conforming audioContext \<and> (\<forall>call\<in>set calls. playable (fst call)) \<and> on_time 0 calls"
  then have "on_time (nextStartTime initial_playback) calls" by (simp add: initial_playback_def)
  with a run_events_playable[of audioContext calls initial_playback]
  have r: "nextStartTime (run_events audioContext (map play_event calls) initial_playback) =
      nextStartTime initial_playback + (\<Sum>call\<leftarrow>calls. chunk_duration (fst call))"
    "map (\<lambda>n. (start_time n, duration (node_buffer n)))
        (device_schedule (run_events audioContext (map play_event calls) initial_playback)) =
      map (\<lambda>n. (start_time n, duration (node_buffer n))) (device_schedule initial_playback) @
      expected_schedule (nextStartTime initial_playback) calls"
    by simp_all
  from r(1) show "nextStartTime (run_events audioContext (map play_event calls) initial_playback) =
         (\<Sum>call\<leftarrow>calls. chunk_duration (fst call))"
    by (simp add: initial_playback_def)
  from r(2) show "map (\<lambda>n. (start_time n, duration (node_buffer n)))
           (device_schedule (run_events audioContext (map play_event calls) initial_playback)) =
         expected_schedule 0 calls"
    by (simp add: initial_playback_def)
next
  have "sorted_wrt (\<lambda>a b. end_time a \<le> start_time b)
          (device_schedule (run_events audioContext evs initial_playback))"
    using run_events_no_overlap[of initial_playback audioContext evs]
    by (simp add: initial_playback_def)
  then show "\<forall>i j. i < j \<and> j < length (device_schedule (run_events audioContext evs initial_playback)) \<longrightarrow>
       end_time (device_schedule (run_events audioContext evs initial_playback) ! i)
         \<le> start_time (device_schedule (run_events audioContext evs initial_playback) ! j)"
    by (simp add: sorted_wrt_iff_nth_less)
next
  assume "clock_never_ahead audioContext evs initial_playback"
  then show "nextStartTime (run_events audioContext evs initial_playback) =
         (\<Sum>n\<leftarrow>device_schedule (run_events audioContext evs initial_playback).
            duration (node_buffer n))"
    by (intro run_events_sum) (simp_all add: initial_playback_def)
next
  assume "clock_never_ahead audioContext evs initial_playback"
  then show "\<forall>j. Suc j < length (device_schedule (run_events audioContext evs initial_playback)) \<longrightarrow>
          start_time (device_schedule (run_events audioContext evs initial_playback) ! Suc j) =
          end_time (device_schedule (run_events audioContext evs initial_playback) ! j)"
    by (intro run_events_gapless) (simp_all add: initial_playback_def)
qed

text \<open>
  Witness for C4, in a context with the least ranges that the standard allows: a chunk
  of two samples arriving at clock reading 7; the same chunk at reading 0 followed by a
  chunk of three samples while the first is playing; and a run with an \<^verbatim>\<open>ended\<close> event
  and a chunk that fails to decode.
\<close>

theorem playback_never_overlaps_witness:
  "conforming least_context \<and> playable ''AQACAA=='' \<and> playable ''AID/fwAA'' \<and>
   playAudio ''AQACAA=='' least_context 7 initial_playback =
     (Inr (),
      \<lparr>nextStartTime = 7 + 2 / 24000,
       audioSources =
         [\<lparr>node_id = 0,
           node_buffer = \<lparr>sampleRate = 24000, channelData = [[1 / 32768, 2 / 32768]]\<rparr>,
           start_time = 7\<rparr>],
       device_schedule =
         [\<lparr>node_id = 0,
           node_buffer = \<lparr>sampleRate = 24000, channelData = [[1 / 32768, 2 / 32768]]\<rparr>,
           start_time = 7\<rparr>]\<rparr>) \<and>
   on_time 0 [(''AQACAA=='', 0), (''AID/fwAA'', 1 / 24000)] \<and>
   nextStartTime (run_events least_context
       (map play_event [(''AQACAA=='', 0), (''AID/fwAA'', 1 / 24000)]) initial_playback) =
     2 / 24000 + 3 / 24000 \<and>
   map (\<lambda>n. (start_time n, duration (node_buffer n)))
     (device_schedule (run_events least_context
        (map play_event [(''AQACAA=='', 0), (''AID/fwAA'', 1 / 24000)]) initial_playback)) =
     [(0, 2 / 24000), (2 / 24000, 3 / 24000)] \<and>
   clock_never_ahead least_context
     [Play ''AQACAA=='' 0, Play ''AID/fwAA'' 0, Ended 0, Play ''QQ=='' 0] initial_playback \<and>
   nextStartTime (run_events least_context
     [Play ''AQACAA=='' 0, Play ''AID/fwAA'' 0, Ended 0, Play ''QQ=='' 0] initial_playback) =
     2 / 24000 + 3 / 24000 \<and>
   map start_time (device_schedule (run_events least_context
     [Play ''AQACAA=='' 0, Play ''AID/fwAA'' 0, Ended 0, Play ''QQ=='' 0] initial_playback)) =
     [0, 2 / 24000] \<and>
   map end_time (device_schedule (run_events least_context
     [Play ''AQACAA=='' 0, Play ''AID/fwAA'' 0, Ended 0, Play ''QQ=='' 0] initial_playback)) =
     [2 / 24000, 5 / 24000]"
proof -
  let ?evs = "[Play ''AQACAA=='' 0, Play ''AID/fwAA'' 0, Ended 0, Play ''QQ=='' 0]"
  let ?calls = "[(''AQACAA=='', 0), (''AID/fwAA'', 1 / 24000)] :: (string \<times> real) list"
  have c: "conforming least_context" by (simp add: conforming_def least_context_def)
  have p: "playable ''AQACAA==''" "playable ''AID/fwAA''"
    by (simp_all add: playable_def decode_two_samples decode_three_samples)
  have d: "chunk_duration ''AQACAA=='' = 2 / 24000" "chunk_duration ''AID/fwAA'' = 3 / 24000"
    by (simp_all add: chunk_duration_def decode_two_samples decode_three_samples)
  have ot: "on_time 0 ?calls" by (simp add: d)
  have b: "pcm_buffer [1, 0, 2, 0] TTS_AUDIO_SAMPLE_RATE (Suc 0) =
      \<lparr>sampleRate = 24000, channelData = [[1 / 32768, 2 / 32768]]\<rparr>"
    by (simp add: pcm_buffer_def le_int16_def upt_rec TTS_AUDIO_SAMPLE_RATE_def)
  note inst = playback_never_overlaps[where audioContext = least_context
      and base64Audio = "''AQACAA==''" and currentTime = 7 and st = initial_playback
      and calls = ?calls and evs = ?evs]
  from inst c p(1) obtain bytes where bytes: "decode ''AQACAA=='' = Inr bytes"
    "playAudio ''AQACAA=='' least_context 7 initial_playback =
       (Inr (),
        initial_playback\<lparr>nextStartTime := max (nextStartTime initial_playback) 7 +
             chunk_duration ''AQACAA=='',
           audioSources := audioSources initial_playback @
             [\<lparr>node_id = length (device_schedule initial_playback),
               node_buffer = pcm_buffer bytes TTS_AUDIO_SAMPLE_RATE 1,
               start_time = max (nextStartTime initial_playback) 7\<rparr>],
           device_schedule := device_schedule initial_playback @
             [\<lparr>node_id = length (device_schedule initial_playback),
               node_buffer = pcm_buffer bytes TTS_AUDIO_SAMPLE_RATE 1,
               start_time = max (nextStartTime initial_playback) 7\<rparr>]\<rparr>)"
    by blast
  from bytes(1) have "bytes = [1, 0, 2, 0]" by (simp add: decode_two_samples)
  with bytes(2) have one: "playAudio ''AQACAA=='' least_context 7 initial_playback =
     (Inr (),
      \<lparr>nextStartTime = 7 + 2 / 24000,
       audioSources =
         [\<lparr>node_id = 0,
           node_buffer = \<lparr>sampleRate = 24000, channelData = [[1 / 32768, 2 / 32768]]\<rparr>,
           start_time = 7\<rparr>],
       device_schedule =
         [\<lparr>node_id = 0,
           node_buffer = \<lparr>sampleRate = 24000, channelData = [[1 / 32768, 2 / 32768]]\<rparr>,
           start_time = 7\<rparr>]\<rparr>)"
    by (simp add: b d initial_playback_def)
  have all: "\<forall>call\<in>set ?calls. playable (fst call)" using p by simp
  from inst c all ot
  have seq: "nextStartTime (run_events least_context (map play_event ?calls) initial_playback) =
      (\<Sum>call\<leftarrow>?calls. chunk_duration (fst call))"
    "map (\<lambda>n. (start_time n, duration (node_buffer n)))
       (device_schedule (run_events least_context (map play_event ?calls) initial_playback)) =
     expected_schedule 0 ?calls"
    by blast+
  have seq': "nextStartTime (run_events least_context (map play_event ?calls) initial_playback) =
      2 / 24000 + 3 / 24000"
    "map (\<lambda>n. (start_time n, duration (node_buffer n)))
       (device_schedule (run_events least_context (map play_event ?calls) initial_playback)) =
     [(0, 2 / 24000), (2 / 24000, 3 / 24000)]"
    unfolding seq by (simp_all add: d)
  from inst scripted_clock
  have sum: "nextStartTime (run_events least_context ?evs initial_playback) =
      (\<Sum>n\<leftarrow>device_schedule (run_events least_context ?evs initial_playback).
         duration (node_buffer n))"
    by blast
  have run: "nextStartTime (run_events least_context ?evs initial_playback) = 2 / 24000 + 3 / 24000"
    unfolding sum scripted_playback by (simp add: duration_def buffer_length_def)
  have times: "map start_time (device_schedule (run_events least_context ?evs initial_playback)) =
      [0, 2 / 24000]"
    "map end_time (device_schedule (run_events least_context ?evs initial_playback)) =
      [2 / 24000, 5 / 24000]"
    unfolding scripted_playback by (simp_all add: end_time_def duration_def buffer_length_def)
  from c p one ot seq' scripted_clock run times show ?thesis by blast
qed

text \<open>
  Claim C5, as amended. When the chunk of a call of \<^verbatim>\<open>playAudio\<close> fails to decode (the
  base64 string is invalid, or its bytes are rejected by \<^verbatim>\<open>decodeAudioData\<close>), the
  error reaches the caller, no source is added and nothing is started, and the cursor
  afterwards is the greater of its old value and the reading of the device clock: the
  assignment \<^verbatim>\<open>nextStartTimeRef.current = Math.max(...)\<close> precedes the decoding.
\<close>

theorem playAudio_decode_failure:
  assumes "base64Audio \<noteq> []"
    and "decode base64Audio = Inl e \<or>
       (\<exists>data. decode base64Audio = Inr data \<and>
          decodeAudioData data audioContext TTS_AUDIO_SAMPLE_RATE 1 = Inl e)"
  shows "playAudio base64Audio audioContext currentTime st =
           (Inl e, st\<lparr>nextStartTime := max (nextStartTime st) currentTime\<rparr>)"
  using assms by (auto simp: playAudio_def)

text \<open>
  Witness for C5: an invalid base64 string, at a clock reading behind the cursor; here
  the cursor keeps its value.
\<close>

theorem playAudio_decode_failure_witness:
  "''!!!!'' \<noteq> [] \<and> decode ''!!!!'' = Inl InvalidCharacterError \<and>
   playAudio ''!!!!'' least_context 1
       \<lparr>nextStartTime = 3, audioSources = [], device_schedule = []\<rparr> =
     (Inl InvalidCharacterError, \<lparr>nextStartTime = 3, audioSources = [], device_schedule = []\<rparr>)"
proof -
  have "playAudio ''!!!!'' least_context 1
       \<lparr>nextStartTime = 3, audioSources = [], device_schedule = []\<rparr> =
     (Inl InvalidCharacterError,
      \<lparr>nextStartTime = 3, audioSources = [], device_schedule = []\<rparr>
        \<lparr>nextStartTime := max (nextStartTime \<lparr>nextStartTime = 3, audioSources = [], device_schedule = []\<rparr>) 1\<rparr>)"
    by (rule playAudio_decode_failure) (simp_all add: decode_invalid)
  then show ?thesis by (simp add: decode_invalid)
qed

text \<open>
  Counterexample to C5 as stated: a chunk of one byte (an odd number of bytes is not a
  sequence of 16-bit samples) arriving at clock reading 5 with the cursor at 0: the
  decode error reaches the caller and the cursor is 5 afterwards.
\<close>

theorem playAudio_decode_failure_counterexample:
  "fst (playAudio ''QQ=='' least_context 5 initial_playback) = Inl RangeError \<and>
   nextStartTime initial_playback = 0 \<and>
   nextStartTime (snd (playAudio ''QQ=='' least_context 5 initial_playback)) = 5"
  by (simp add: playAudio_def decode_one_byte odd_byte_count initial_playback_def)

text \<open>
  Claim C10. A call of \<^verbatim>\<open>playAudio\<close> with the empty audio string returns without an
  error and leaves the whole scheduler state as it was: the cursor, the set of active
  sources, and the schedule of the device (nothing is started).
\<close>

theorem playAudio_empty_is_noop:
  "playAudio [] audioContext currentTime st = (Inr (), st)"
  by (simp add: playAudio_def)


end
